theory Spec2Isabelle
  imports Main
begin

section \<open>Python strings\<close>

text \<open>
  A Python \<open>str\<close> is a sequence of code points and \<open>len\<close> counts code points.
  The model uses \<^typ>\<open>string\<close>; a \<^typ>\<open>char\<close> stands for one code point in the
  range U+0000 .. U+00FF, and the character classes below are Python's
  \<open>str.isspace\<close>, \<open>str.isalpha\<close>, \<open>str.isdigit\<close> and \<open>str.isalnum\<close> on that range.
\<close>

definition code :: "char \<Rightarrow> nat" where
  "code c = of_char c"

definition isspace :: "char \<Rightarrow> bool" where
  "isspace c = (let n = code c in
     (9 \<le> n \<and> n \<le> 13) \<or> (28 \<le> n \<and> n \<le> 32) \<or> n = 133 \<or> n = 160)"

text \<open>\<open>s.strip()\<close>: leading and trailing whitespace removed.\<close>

definition lstrip :: "string \<Rightarrow> string" where
  "lstrip s = dropWhile isspace s"

definition rstrip :: "string \<Rightarrow> string" where
  "rstrip s = rev (dropWhile isspace (rev s))"

definition strip :: "string \<Rightarrow> string" where
  "strip s = rstrip (lstrip s)"

text \<open>
  \<open>s[i:j]\<close> for arbitrary integers: a negative index counts from the end, and
  both indices are clamped into \<open>0 .. len(s)\<close>; the slice is empty when the adjusted
  end is not after the adjusted start.
\<close>

definition py_index :: "int \<Rightarrow> nat \<Rightarrow> nat" where
  "py_index i n =
     (if i < 0 then (if i + int n < 0 then 0 else nat (i + int n))
      else if int n \<le> i then n else nat i)"

definition py_slice :: "string \<Rightarrow> int \<Rightarrow> int \<Rightarrow> string" where
  "py_slice s i j =
     (let a = py_index i (length s); b = py_index j (length s)
      in take (b - a) (drop a s))"

section \<open>The window chunker\<close>

text \<open>
  The source function has no \<open>raise\<close> statement and the repository defines no
  exception class. The type \<open>error\<close> names the exception of the specification, so that
  ``the call raises'' can be written down; an outcome is \<open>Inl\<close> of an error or \<open>Inr\<close>
  of the returned list.
\<close>

datatype error = ConfigError

text \<open>
  The \<open>while\<close> loop of \<open>quick_chunk_text\<close>, on its state \<open>(start, chunks)\<close>.
  One unfolding is one test of the loop condition followed by one run of the body;
  \<open>break\<close> and a false loop condition both return the list built so far.
  A run that never leaves the loop has the value \<open>None\<close>.
\<close>

partial_function (option) chunk_loop ::
  "string \<Rightarrow> int \<Rightarrow> int \<Rightarrow> int \<Rightarrow> string list \<Rightarrow> string list option" where
  "chunk_loop text chunk_size overlap start chunks =
     (if start < int (length text) then
        (let end = start + chunk_size;
             chunk_text = py_slice text start end;
             chunks' = (if 50 < length (strip chunk_text)
                        then chunks @ [chunk_text] else chunks);
             start' = end - overlap
         in if int (length text) \<le> end then Some chunks'
            else chunk_loop text chunk_size overlap start' chunks')
      else Some chunks)"

definition quick_chunk_text :: "string \<Rightarrow> int \<Rightarrow> int \<Rightarrow> (error + string list) option" where
  "quick_chunk_text text chunk_size overlap =
     map_option Inr (chunk_loop text chunk_size overlap 0 [])"

section \<open>The windows of the specification\<close>

text \<open>
  The specification describes the chunker by its windows: window \<open>k\<close> starts at
  \<open>k \<times> (chunk_size - overlap)\<close> and is \<open>chunk_size\<close> characters long (shorter only where
  the text ends); the last window is the first one whose end reaches the end of the
  text. A window is emitted as a chunk when its trimmed length exceeds 50.
  These definitions follow the specification's words; the theorems below relate
  them to \<^const>\<open>quick_chunk_text\<close>.
\<close>

definition trimmed_long :: "string \<Rightarrow> bool" where
  "trimmed_long w = (50 < length (strip w))"

definition window_start :: "int \<Rightarrow> int \<Rightarrow> nat \<Rightarrow> nat" where
  "window_start chunk_size overlap k = k * nat (chunk_size - overlap)"

definition window :: "string \<Rightarrow> int \<Rightarrow> int \<Rightarrow> nat \<Rightarrow> string" where
  "window text chunk_size overlap k =
     take (nat chunk_size) (drop (window_start chunk_size overlap k) text)"

definition num_windows :: "nat \<Rightarrow> int \<Rightarrow> int \<Rightarrow> nat" where
  "num_windows L chunk_size overlap =
     (if L = 0 then 0
      else Suc ((L - nat chunk_size + nat (chunk_size - overlap) - 1) div nat (chunk_size - overlap)))"

definition windows :: "string \<Rightarrow> int \<Rightarrow> int \<Rightarrow> string list" where
  "windows text chunk_size overlap =
     map (window text chunk_size overlap) [0..<num_windows (length text) chunk_size overlap]"

text \<open>The indices of the windows that are emitted, in order.\<close>

definition kept_windows :: "string \<Rightarrow> int \<Rightarrow> int \<Rightarrow> nat list" where
  "kept_windows text chunk_size overlap =
     filter (\<lambda>k. trimmed_long (window text chunk_size overlap k))
       [0..<num_windows (length text) chunk_size overlap]"

section \<open>The text extractor, from the extracted text on\<close>

text \<open>
  Both revisions of \<open>clean_html_text\<close> first call an HTML parser of a third-party
  library (\<open>BeautifulSoup\<close>, \<open>decompose\<close>, \<open>get_text\<close>); that part is outside the
  repository. The model starts at the string returned by \<open>get_text\<close> and covers the
  rest of the function: the entity replacements, the line filter and the final
  whitespace normalisation. The permissive revision is the one of
  \<open>chunk_docs_html_fixed.py\<close> (suffix \<open>_fixed\<close>), the aggressive revision the one of
  \<open>src/chunking/chunk_docs_html.py\<close> (suffix \<open>_aggressive\<close>).
\<close>

subsection \<open>Library functions on strings\<close>

definition isalpha :: "char \<Rightarrow> bool" where
  "isalpha c = (let n = code c in
     (65 \<le> n \<and> n \<le> 90) \<or> (97 \<le> n \<and> n \<le> 122) \<or> n = 170 \<or> n = 181 \<or> n = 186
     \<or> (192 \<le> n \<and> n \<le> 214) \<or> (216 \<le> n \<and> n \<le> 246) \<or> (248 \<le> n \<and> n \<le> 255))"

definition isdigit :: "char \<Rightarrow> bool" where
  "isdigit c = (let n = code c in (48 \<le> n \<and> n \<le> 57) \<or> n = 178 \<or> n = 179 \<or> n = 185)"

definition isalnum :: "char \<Rightarrow> bool" where
  "isalnum c = (let n = code c in isalpha c \<or> isdigit c \<or> (188 \<le> n \<and> n \<le> 190))"

text \<open>
  The line boundaries of \<open>str.splitlines\<close>: LF, VT, FF, CR, FS, GS, RS and NEL;
  CR followed by LF counts as one boundary, and a text that ends in a boundary has no
  empty last line.
\<close>

definition is_linebreak :: "char \<Rightarrow> bool" where
  "is_linebreak c = (let n = code c in (10 \<le> n \<and> n \<le> 13) \<or> (28 \<le> n \<and> n \<le> 30) \<or> n = 133)"

definition not_linebreak :: "char \<Rightarrow> bool" where
  "not_linebreak c = (\<not> is_linebreak c)"

function splitlines :: "string \<Rightarrow> string list" where
  "splitlines s =
     (if s = [] then []
      else (let line = takeWhile not_linebreak s; rest = dropWhile not_linebreak s
            in case rest of
                 [] \<Rightarrow> [line]
               | c # r \<Rightarrow>
                   line # splitlines (if c = CHR 0x0D \<and> r \<noteq> [] \<and> hd r = CHR 0x0A
                                      then tl r else r)))"
  by pat_completeness auto
termination
proof (relation "measure length")
  show "wf (measure length)" by simp
next
  fix s :: string and line rest c r
  assume "s \<noteq> []" and "rest = dropWhile not_linebreak s" and "rest = c # r"
  then have "length (c # r) \<le> length s" by (metis length_dropWhile_le)
  then have "length r < length s" and "length (tl r) < length s" by simp_all
  then show "(if c = CHR 0x0D \<and> r \<noteq> [] \<and> hd r = CHR 0x0A then tl r else r, s) \<in> measure length"
    by simp
qed

declare splitlines.simps [simp del]

text \<open>
  \<open>text.replace(old, new)\<close>: the occurrences of \<open>old\<close> are replaced from left to
  right without overlap; an empty \<open>old\<close> matches before every character and at the end.
\<close>

function py_replace :: "string \<Rightarrow> string \<Rightarrow> string \<Rightarrow> string" where
  "py_replace t old new =
     (if old = [] then new @ concat (map (\<lambda>c. c # new) t)
      else if t = [] then []
      else if take (length old) t = old then new @ py_replace (drop (length old) t) old new
      else hd t # py_replace (tl t) old new)"
  by pat_completeness auto
termination
proof (relation "measure (\<lambda>(t, old, new). length t)")
  show "wf (measure (\<lambda>(t, old, new). length t))" by simp
next
  fix t old new :: string
  assume "old \<noteq> []" and "t \<noteq> []"
  then show "((drop (length old) t, old, new), t, old, new) \<in> measure (\<lambda>(t, old, new). length t)"
    by simp
next
  fix t old new :: string
  assume "t \<noteq> []"
  then show "((tl t, old, new), t, old, new) \<in> measure (\<lambda>(t, old, new). length t)"
    by (cases t) simp_all
qed

declare py_replace.simps [simp del]

text \<open>\<open>" ".join(lines)\<close>.\<close>

fun join_space :: "string list \<Rightarrow> string" where
  "join_space [] = []"
| "join_space [x] = x"
| "join_space (x # y # ys) = x @ CHR '' '' # join_space (y # ys)"

text \<open>\<open>re.sub(r"\s+", " ", text)\<close>: every maximal run of whitespace becomes one space.\<close>

function re_sub_ws :: "string \<Rightarrow> string" where
  "re_sub_ws [] = []"
| "re_sub_ws (c # cs) =
     (if isspace c then CHR '' '' # re_sub_ws (dropWhile isspace cs) else c # re_sub_ws cs)"
  by pat_completeness auto
termination
proof (relation "measure length")
  show "wf (measure length)" by simp
next
  fix c :: char and cs
  have "length (dropWhile isspace cs) \<le> length cs" by (rule length_dropWhile_le)
  then show "(dropWhile isspace cs, c # cs) \<in> measure length" by simp
next
  fix c :: char and cs
  show "(cs, c # cs) \<in> measure length" by simp
qed

subsection \<open>Entity replacement\<close>

text \<open>
  The dictionaries \<open>replacements\<close> of the two revisions, in insertion order, which is
  the order of the loop \<open>for k, v in replacements.items(): text = text.replace(k, v)\<close>.
\<close>

definition replacements_fixed :: "(string \<times> string) list" where
  "replacements_fixed =
     [(''&nbsp;'', '' ''), (''&amp;'', ''&''), (''&lt;'', ''<''), (''&gt;'', ''>''),
      (''&quot;'', [CHR 0x22]), (''&#8217;'', [CHR 0x27]), (''&#8220;'', [CHR 0x22]),
      (''&#8221;'', [CHR 0x22]), (''&#x2013;'', ''-''), (''&#x2014;'', ''-'')]"

definition replacements_aggressive :: "(string \<times> string) list" where
  "replacements_aggressive =
     [(''&nbsp;'', '' ''), (''&amp;'', ''&''), (''&lt;'', ''<''), (''&gt;'', ''>''),
      (''&quot;'', [CHR 0x22]), (''&#8217;'', [CHR 0x27]), (''&#8220;'', [CHR 0x22]),
      (''&#8221;'', [CHR 0x22]), (''&#x2013;'', ''-'')]"

fun replace_all :: "(string \<times> string) list \<Rightarrow> string \<Rightarrow> string" where
  "replace_all [] text = text"
| "replace_all ((k, v) # rest) text = replace_all rest (py_replace text k v)"

subsection \<open>The line filters\<close>

text \<open>
  The body of the \<open>for raw_line in text.splitlines()\<close> loop decides for the stripped
  line whether it reaches \<open>cleaned_lines.append(line)\<close>; every \<open>continue\<close> is a
  \<open>False\<close>. The permissive revision compares \<open>alphanumeric < len(line) * 0.3\<close>
  in floating point. The product is the nearest double to \<open>len(line)\<close> times the double
  next to 0.3, which lies below 0.3 by a relative error of less than 2 to the power -54; so where
  \<open>3 \<times> len(line)\<close> is a multiple of 10 the product rounds to the integer
  \<open>3 \<times> len(line) / 10\<close> itself, and elsewhere it stays strictly between the two
  neighbouring integers. For integers the test is therefore
  \<open>10 \<times> alphanumeric < 3 \<times> len(line)\<close>, which is what the model computes.
\<close>

definition keep_line_fixed :: "string \<Rightarrow> bool" where
  "keep_line_fixed line =
     (if line = [] then False
      else if length line < 20 then False
      else (let letters = length (filter isalpha line) in
        if letters < 3 then False
        else (let alphanumeric = length (filter isalnum line) in
          if 10 * alphanumeric < 3 * length line then False
          else True)))"

definition keep_line_aggressive :: "string \<Rightarrow> bool" where
  "keep_line_aggressive line =
     (if line = [] then False
      else (let letters = length (filter isalpha line);
                digits = length (filter isdigit line) in
        if 0 < digits \<and> 2 * max 1 letters \<le> digits then False
        else if length line < 40 then False
        else True))"

text \<open>The loop itself, over the raw lines, with the list \<open>cleaned_lines\<close> built so far.\<close>

fun line_loop :: "(string \<Rightarrow> bool) \<Rightarrow> string list \<Rightarrow> string list \<Rightarrow> string list" where
  "line_loop keep [] cleaned_lines = cleaned_lines"
| "line_loop keep (raw_line # rest) cleaned_lines =
     (let line = strip raw_line
      in if keep line then line_loop keep rest (cleaned_lines @ [line])
         else line_loop keep rest cleaned_lines)"

text \<open>
  The line filter followed by the join and the whitespace normalisation (the last two
  statements before \<open>return text\<close>), and the whole function after \<open>get_text\<close>.
\<close>

definition filter_lines :: "(string \<Rightarrow> bool) \<Rightarrow> string \<Rightarrow> string" where
  "filter_lines keep text =
     strip (re_sub_ws (join_space (line_loop keep (splitlines text) [])))"

definition filter_lines_fixed :: "string \<Rightarrow> string" where
  "filter_lines_fixed text = filter_lines keep_line_fixed text"

definition filter_lines_aggressive :: "string \<Rightarrow> string" where
  "filter_lines_aggressive text = filter_lines keep_line_aggressive text"

definition clean_html_text_fixed :: "string \<Rightarrow> string" where
  "clean_html_text_fixed text = filter_lines_fixed (replace_all replacements_fixed text)"

definition clean_html_text_aggressive :: "string \<Rightarrow> string" where
  "clean_html_text_aggressive text =
     filter_lines_aggressive (replace_all replacements_aggressive text)"

text \<open>Whether \<open>old\<close> occurs in a text as a substring (\<open>old in text\<close>).\<close>

fun has_substring :: "string \<Rightarrow> string \<Rightarrow> bool" where
  "has_substring old [] = (old = [])"
| "has_substring old (c # cs) = (take (length old) (c # cs) = old \<or> has_substring old cs)"

text \<open>
  The invariant of a NormalizedText: every whitespace character is a space, and no
  space is followed by whitespace.
\<close>

fun single_spaced :: "string \<Rightarrow> bool" where
  "single_spaced [] = True"
| "single_spaced [c] = (if isspace c then c = CHR '' '' else True)"
| "single_spaced (c # d # cs) =
     ((if isspace c then c = CHR '' '' \<and> \<not> isspace d else True) \<and> single_spaced (d # cs))"

section \<open>The loop of the chunker\<close>

lemmas chunk_loop_induct = chunk_loop.raw_induct [rotated, consumes 1, case_names step]

lemma chunk_loop_stuck:
  "chunk_loop t chunk_size overlap start chunks = Some y \<Longrightarrow>
     \<not> (chunk_size \<le> overlap \<and> chunk_size < int (length t) \<and> t \<noteq> [] \<and> start \<le> 0)"
proof (induction t chunk_size overlap start chunks y rule: chunk_loop_induct)
  case (step f t chunk_size overlap start chunks y)
  show ?case
  proof
    assume a: "chunk_size \<le> overlap \<and> chunk_size < int (length t) \<and> t \<noteq> [] \<and> start \<le> 0"
    then have "0 < int (length t)" by (cases t) auto
    with a have lt: "start < int (length t)" and ne: "\<not> int (length t) \<le> start + chunk_size"
      by linarith+
    from step.hyps lt ne obtain chunks' where
      "f t chunk_size overlap (start + chunk_size - overlap) chunks' = Some y"
      by (simp add: Let_def)
    from step.IH[OF this] a show False by auto
  qed
qed

lemma chunk_loop_kept:
  "chunk_loop t chunk_size overlap start chunks = Some ws \<Longrightarrow>
   (\<And>w. w \<in> set chunks \<Longrightarrow> 50 < length (strip w)) \<Longrightarrow> w \<in> set ws \<Longrightarrow> 50 < length (strip w)"
proof (induction t chunk_size overlap start chunks ws rule: chunk_loop_induct)
  case (step f t chunk_size overlap start chunks ws)
  show ?case
  proof (cases "start < int (length t)")
    case False
    with step.hyps step.prems show ?thesis by simp
  next
    case True
    define chunk_text where "chunk_text = py_slice t start (start + chunk_size)"
    define chunks' where "chunks' = (if 50 < length (strip chunk_text) then chunks @ [chunk_text] else chunks)"
    have k: "\<And>w. w \<in> set chunks' \<Longrightarrow> 50 < length (strip w)"
      using step.prems(1) by (auto simp: chunks'_def split: if_splits)
    show ?thesis
    proof (cases "int (length t) \<le> start + chunk_size")
      case True
      with step.hyps \<open>start < int (length t)\<close> have "ws = chunks'"
        by (auto simp: Let_def chunks'_def chunk_text_def)
      with k step.prems(2) show ?thesis by simp
    next
      case False
      with step.hyps \<open>start < int (length t)\<close>
      have "f t chunk_size overlap (start + chunk_size - overlap) chunks' = Some ws"
        by (auto simp: Let_def chunks'_def chunk_text_def)
      from step.IH[OF this k step.prems(2)] show ?thesis by simp
    qed
  qed
qed

lemma chunk_loop_exit:
  "\<not> start < int (length t) \<Longrightarrow> chunk_loop t c ov start chunks = Some chunks"
  by (subst chunk_loop.simps) simp

lemma chunk_loop_last:
  "start < int (length t) \<Longrightarrow> int (length t) \<le> start + c \<Longrightarrow>
   chunk_loop t c ov start chunks
     = Some (chunks @ filter trimmed_long [py_slice t start (start + c)])"
  by (subst chunk_loop.simps) (simp add: Let_def trimmed_long_def)

lemma chunk_loop_step:
  "start < int (length t) \<Longrightarrow> \<not> int (length t) \<le> start + c \<Longrightarrow>
   chunk_loop t c ov start chunks
     = chunk_loop t c ov (start + c - ov) (chunks @ filter trimmed_long [py_slice t start (start + c)])"
  by (subst chunk_loop.simps) (simp add: Let_def trimmed_long_def)

lemma py_slice_nat:
  "0 \<le> c \<Longrightarrow> py_slice s (int a) (int a + c) = take (nat c) (drop a s)"
  by (auto simp: py_slice_def py_index_def Let_def min_def nat_add_distrib)

lemma num_windows_inner:
  assumes "0 \<le> ov" "ov < c" "Suc k < num_windows L c ov"
  shows "k * nat (c - ov) + nat c < L"
proof -
  define st where "st = nat (c - ov)"
  define x where "x = L - nat c + st - 1"
  have st: "0 < st" using assms by (simp add: st_def)
  from assms(3) have "Suc k \<le> x div st"
    by (auto simp: num_windows_def st_def x_def split: if_splits)
  then have "Suc k * st \<le> (x div st) * st" by (rule mult_le_mono1)
  also have "\<dots> \<le> x" by simp
  finally have "k * st + st \<le> L - nat c + st - 1" by (simp add: x_def)
  with st show ?thesis unfolding st_def by linarith
qed

lemma num_windows_final:
  assumes "0 \<le> ov" "ov < c" "num_windows L c ov = Suc k"
  shows "L \<le> k * nat (c - ov) + nat c"
proof -
  define st where "st = nat (c - ov)"
  define x where "x = L - nat c + st - 1"
  have st: "0 < st" using assms by (simp add: st_def)
  from assms(3) have k: "k = x div st"
    by (auto simp: num_windows_def st_def x_def split: if_splits)
  have "x < st + (x div st) * st" using st by (rule dividend_less_div_times)
  then have "L - nat c + st - 1 < st + k * st" by (simp add: x_def k)
  with st show ?thesis unfolding st_def by linarith
qed

lemma num_windows_start:
  assumes "0 \<le> ov" "ov < c" "k < num_windows L c ov"
  shows "k * nat (c - ov) < L"
proof (cases k)
  case 0
  with assms(3) show ?thesis by (auto simp: num_windows_def split: if_splits)
next
  case (Suc j)
  with assms have "j * nat (c - ov) + nat c < L" by (simp add: num_windows_inner)
  moreover have "nat (c - ov) \<le> nat c" using assms by simp
  ultimately show ?thesis using Suc by simp
qed

lemma chunk_loop_windows:
  assumes "0 \<le> ov" "ov < c" "k < num_windows (length t) c ov"
  shows "chunk_loop t c ov (int (window_start c ov k)) chunks
    = Some (chunks @ filter trimmed_long (map (window t c ov) [k..<num_windows (length t) c ov]))"
  using assms(3)
proof (induction "num_windows (length t) c ov - k" arbitrary: k chunks)
  case 0
  then show ?case by simp
next
  case (Suc d)
  let ?n = "num_windows (length t) c ov"
  let ?s = "window_start c ov k"
  have c: "int (nat c) = c" using assms by simp
  have "?s < length t"
    using num_windows_start[OF assms(1,2) Suc.prems] by (simp only: window_start_def)
  then have lt: "int ?s < int (length t)" by (simp only: of_nat_less_iff)
  have sl: "py_slice t (int ?s) (int ?s + c) = window t c ov k"
    using assms by (simp only: window_def py_slice_nat)
  show ?case
  proof (cases "Suc k = ?n")
    case True
    have "length t \<le> ?s + nat c"
      using num_windows_final[OF assms(1,2) True[symmetric]] by (simp only: window_start_def)
    then have "int (length t) \<le> int (?s + nat c)" by (simp only: of_nat_le_iff)
    then have "int (length t) \<le> int ?s + c" by (simp only: of_nat_add c)
    moreover have "[k..<?n] = [k]" unfolding True[symmetric] by simp
    ultimately show ?thesis using lt sl by (simp only: chunk_loop_last list.map)
  next
    case False
    with Suc.prems have k1: "Suc k < ?n" by simp
    have "?s + nat c < length t"
      using num_windows_inner[OF assms(1,2) k1] by (simp only: window_start_def)
    then have "int (?s + nat c) < int (length t)" by (simp only: of_nat_less_iff)
    then have "\<not> int (length t) \<le> int ?s + c" by (simp only: of_nat_add c not_le)
    moreover have "int ?s + c - ov = int (window_start c ov (Suc k))"
    proof -
      have "int (nat (c - ov)) = c - ov" using assms by simp
      then show ?thesis by (simp add: window_start_def algebra_simps)
    qed
    moreover have d: "d = ?n - Suc k" using Suc.hyps(2) by simp
    moreover have "[k..<?n] = k # [Suc k..<?n]" using Suc.prems by (simp add: upt_rec)
    ultimately show ?thesis
      using lt sl Suc.hyps(1)[OF d k1] by (simp add: chunk_loop_step)
  qed
qed

lemma chunk_loop_returns:
  "ov < c \<Longrightarrow> \<exists>ws. chunk_loop t c ov start chunks = Some ws"
proof (induction "nat (int (length t) - start)" arbitrary: start chunks rule: less_induct)
  case less
  show ?case
  proof (cases "start < int (length t)")
    case False
    then show ?thesis by (simp add: chunk_loop_exit)
  next
    case True
    show ?thesis
    proof (cases "int (length t) \<le> start + c")
      case True
      with \<open>start < int (length t)\<close> show ?thesis by (simp add: chunk_loop_last)
    next
      case False
      have "nat (int (length t) - (start + c - ov)) < nat (int (length t) - start)"
        using \<open>start < int (length t)\<close> less.prems by linarith
      from less.hyps[OF this less.prems]
      show ?thesis using False \<open>start < int (length t)\<close> by (simp add: chunk_loop_step)
    qed
  qed
qed

lemma quick_chunk_text_closed_form:
  assumes "0 \<le> ov" "ov < c"
  shows "quick_chunk_text t c ov
    = Some (Inr (filter trimmed_long (map (window t c ov) [0..<num_windows (length t) c ov])))"
proof (cases "t = []")
  case True
  then show ?thesis by (simp add: quick_chunk_text_def chunk_loop_exit num_windows_def)
next
  case False
  then have "0 < num_windows (length t) c ov" by (simp add: num_windows_def)
  from chunk_loop_windows[OF assms this, of "[]"] show ?thesis
    by (simp add: quick_chunk_text_def window_start_def)
qed

lemma strip_replicate:
  "\<not> isspace x \<Longrightarrow> strip (replicate n x) = replicate n x"
  by (simp add: strip_def lstrip_def rstrip_def dropWhile_replicate)

lemma window_length_inner:
  assumes "0 \<le> ov" "ov < c" "Suc k < num_windows (length t) c ov"
  shows "length (window t c ov k) = nat c"
  using num_windows_inner[OF assms] by (simp add: window_def window_start_def)

lemma window_final:
  assumes "0 \<le> ov" "ov < c" "num_windows (length t) c ov = Suc k"
  shows "window t c ov k = drop (window_start c ov k) t"
  using num_windows_final[OF assms] by (simp add: window_def window_start_def)

lemma window_py_slice:
  "0 \<le> c \<Longrightarrow> window t c ov k
     = py_slice t (int (window_start c ov k)) (int (window_start c ov k) + c)"
  by (simp only: window_def py_slice_nat)

lemma filter_nth_butlast:
  assumes "Suc i < length (filter P ys)"
  shows "filter P ys ! i \<in> set (butlast ys)"
proof (cases ys rule: rev_cases)
  case Nil
  with assms show ?thesis by simp
next
  case (snoc xs x)
  with assms have i: "i < length (filter P xs)" by (simp split: if_splits)
  then have "filter P ys ! i = filter P xs ! i" using snoc by (simp add: nth_append)
  moreover have "filter P xs ! i \<in> set (filter P xs)" using i by (rule nth_mem)
  ultimately show ?thesis using snoc by simp
qed

lemma windows_butlast:
  assumes "0 \<le> ov" "ov < c" "w \<in> set (butlast (windows t c ov))"
  shows "length w = nat c"
proof -
  let ?n = "num_windows (length t) c ov"
  have "butlast (windows t c ov) = map (window t c ov) [0..<?n - 1]"
    by (simp add: windows_def butlast_conv_take take_map take_upt)
  with assms(3) obtain k where "k < ?n - 1" "w = window t c ov k" by auto
  then show ?thesis using window_length_inner[OF assms(1,2), of k t] by simp
qed

lemma windows_member:
  assumes "0 \<le> ov" "ov < c" "w \<in> set (windows t c ov)"
  shows "length w = nat c
       \<or> w = drop (window_start c ov (num_windows (length t) c ov - 1)) t"
proof -
  let ?n = "num_windows (length t) c ov"
  from assms(3) obtain k where k: "k < ?n" "w = window t c ov k"
    by (auto simp: windows_def)
  show ?thesis
  proof (cases "Suc k < ?n")
    case True
    then show ?thesis using window_length_inner[OF assms(1,2)] k by simp
  next
    case False
    with k have "?n = Suc k" by simp
    then show ?thesis using window_final[OF assms(1,2)] k by simp
  qed
qed

lemma windows_last_kept:
  assumes "0 \<le> ov" "ov < c" "t \<noteq> []"
    and "trimmed_long (drop (window_start c ov (num_windows (length t) c ov - 1)) t)"
  shows "filter trimmed_long (windows t c ov) \<noteq> []
       \<and> last (filter trimmed_long (windows t c ov))
           = drop (window_start c ov (num_windows (length t) c ov - 1)) t"
proof -
  let ?n = "num_windows (length t) c ov"
  define m where "m = ?n - 1"
  from assms(3) have n: "?n = Suc m" by (simp add: m_def num_windows_def)
  have fin: "window t c ov m = drop (window_start c ov m) t"
    using assms(1,2) n by (rule window_final)
  have "windows t c ov = map (window t c ov) [0..<m] @ [window t c ov m]"
    by (simp add: windows_def n)
  then have "filter trimmed_long (windows t c ov)
          = filter trimmed_long (map (window t c ov) [0..<m]) @ [drop (window_start c ov m) t]"
    using assms(4) fin by (simp add: m_def)
  then show ?thesis by (simp add: m_def)
qed

lemma lstrip_append:
  "lstrip (p @ u) = (if \<forall>x \<in> set p. isspace x then lstrip u else lstrip p @ u)"
  by (simp add: lstrip_def dropWhile_append)

lemma length_rstrip_append_left: "length (rstrip u) \<le> length (rstrip (p @ u))"
proof (cases "\<forall>x \<in> set u. isspace x")
  case True
  then have e: "dropWhile isspace (rev u) = []" by simp
  show ?thesis unfolding rstrip_def e by simp
next
  case False
  then show ?thesis by (auto simp: rstrip_def dropWhile_append)
qed

lemma length_rstrip_append_right: "length (rstrip u) \<le> length (rstrip (u @ q))"
proof -
  have "length (dropWhile isspace (rev u)) \<le> length u"
    using length_dropWhile_le[of isspace "rev u"] by simp
  then show ?thesis by (auto simp: rstrip_def dropWhile_append)
qed

lemma length_strip_append_left: "length (strip u) \<le> length (strip (p @ u))"
proof (cases "\<forall>x \<in> set p. isspace x")
  case True
  then show ?thesis by (simp add: strip_def lstrip_append)
next
  case False
  have "u = takeWhile isspace u @ lstrip u" by (simp add: lstrip_def)
  then have "lstrip p @ u = (lstrip p @ takeWhile isspace u) @ lstrip u" by simp
  then have "length (rstrip (lstrip u)) \<le> length (rstrip (lstrip p @ u))"
    using length_rstrip_append_left[of "lstrip u" "lstrip p @ takeWhile isspace u"] by simp
  with False show ?thesis by (simp add: strip_def lstrip_append)
qed

lemma length_strip_append_right: "length (strip u) \<le> length (strip (u @ q))"
proof (cases "\<forall>x \<in> set u. isspace x")
  case True
  then have "lstrip u = []" by (simp add: lstrip_def)
  then show ?thesis by (simp add: strip_def rstrip_def)
next
  case False
  then have "lstrip (u @ q) = lstrip u @ q" by (simp only: lstrip_append if_False)
  then show ?thesis by (simp add: strip_def length_rstrip_append_right)
qed

lemma length_strip_py_slice: "length (strip (py_slice s i j)) \<le> length (strip s)"
proof -
  obtain a n where sl: "py_slice s i j = take n (drop a s)"
    by (simp add: py_slice_def Let_def)
  have "length (strip (take n (drop a s))) \<le> length (strip (take n (drop a s) @ drop n (drop a s)))"
    by (rule length_strip_append_right)
  also have "\<dots> = length (strip (drop a s))" by (simp only: append_take_drop_id)
  also have "\<dots> \<le> length (strip (take a s @ drop a s))" by (rule length_strip_append_left)
  also have "\<dots> = length (strip s)" by (simp only: append_take_drop_id)
  finally show ?thesis using sl by simp
qed

lemma chunk_loop_short:
  "chunk_loop t c ov start chunks = Some ws \<Longrightarrow> length (strip t) \<le> 50 \<Longrightarrow> ws = chunks"
proof (induction t c ov start chunks ws rule: chunk_loop_induct)
  case (step f t c ov start chunks ws)
  have drop: "\<not> 50 < length (strip (py_slice t start (start + c)))"
    using length_strip_py_slice[of t start "start + c"] step.prems by simp
  show ?case
  proof (cases "start < int (length t)")
    case False
    with step.hyps show ?thesis by simp
  next
    case True
    show ?thesis
    proof (cases "int (length t) \<le> start + c")
      case True
      with step.hyps \<open>start < int (length t)\<close> drop show ?thesis by (simp add: Let_def)
    next
      case False
      with step.hyps \<open>start < int (length t)\<close> drop
      have "f t c ov (start + c - ov) chunks = Some ws" by (simp add: Let_def)
      from step.IH[OF this step.prems] show ?thesis .
    qed
  qed
qed

lemma py_slice_whole:
  "int (length s) \<le> c \<Longrightarrow> py_slice s 0 c = s"
  by (simp add: py_slice_def py_index_def)

lemma quick_chunk_text_never_raises:
  "quick_chunk_text t c ov \<noteq> Some (Inl e)"
  by (auto simp: quick_chunk_text_def)

lemma quick_chunk_text_short:
  assumes "t = [] \<or> int (length t) \<le> c"
  shows "quick_chunk_text t c ov = Some (Inr (filter trimmed_long [t]))"
proof (cases "t = []")
  case True
  then show ?thesis
    by (simp add: quick_chunk_text_def chunk_loop_exit trimmed_long_def strip_def lstrip_def rstrip_def)
next
  case False
  then have "0 < int (length t)" by simp
  moreover from False assms have "int (length t) \<le> c" by simp
  ultimately show ?thesis
    by (simp add: quick_chunk_text_def chunk_loop_last py_slice_whole)
qed

lemma quick_chunk_text_overlap_ge:
  assumes "c \<le> ov"
  shows "quick_chunk_text t c ov
     = (if t = [] \<or> int (length t) \<le> c then Some (Inr (filter trimmed_long [t])) else None)"
proof (cases "t = [] \<or> int (length t) \<le> c")
  case True
  then show ?thesis by (simp only: quick_chunk_text_short if_True)
next
  case False
  have "chunk_loop t c ov 0 [] = None"
  proof (cases "chunk_loop t c ov 0 []")
    case None
    then show ?thesis .
  next
    case (Some ws)
    from chunk_loop_stuck[OF this] assms False show ?thesis by simp
  qed
  then show ?thesis using False by (simp add: quick_chunk_text_def)
qed

lemma quick_chunk_text_kept_windows:
  assumes "0 \<le> ov" "ov < c"
  shows "quick_chunk_text t c ov = Some (Inr (map (window t c ov) (kept_windows t c ov)))"
  using assms by (simp add: quick_chunk_text_closed_form kept_windows_def filter_map comp_def)

lemma kept_windows_bound:
  "k \<in> set (kept_windows t c ov) \<Longrightarrow> k < num_windows (length t) c ov"
  by (simp add: kept_windows_def)

lemma adjacent_windows:
  assumes "0 \<le> ov" "ov < c" "Suc k < num_windows (length t) c ov"
  shows "take (nat ov) (window t c ov (Suc k))
           = drop (length (window t c ov k) - nat ov) (window t c ov k)
       \<and> length (window t c ov k) = nat c
       \<and> nat ov < length (window t c ov (Suc k))"
proof -
  define s where "s = window_start c ov k"
  define st where "st = nat (c - ov)"
  have len: "length (window t c ov k) = nat c" using assms by (rule window_length_inner)
  have inner: "s + nat c < length t"
    using num_windows_inner[OF assms] by (simp only: s_def window_start_def)
  have st: "nat c - nat ov = st" "nat ov < nat c" "st + nat ov = nat c"
    using assms by (simp_all add: st_def)
  have nxt: "window_start c ov (Suc k) = s + st"
    by (simp add: window_start_def s_def st_def)
  have "nat c - st = nat ov" using st by linarith
  then have "drop (nat c - nat ov) (window t c ov k) = take (nat ov) (drop (s + st) t)"
    using st(1) by (simp add: window_def s_def[symmetric] drop_take add.commute)
  moreover have "take (nat ov) (window t c ov (Suc k)) = take (nat ov) (drop (s + st) t)"
    using st by (simp add: window_def nxt min_def)
  moreover have "nat ov < length (window t c ov (Suc k))"
    using st inner by (simp add: window_def nxt)
  ultimately show ?thesis using len by simp
qed

lemma strip_id:
  assumes "s \<noteq> []" "\<not> isspace (hd s)" "\<not> isspace (last s)"
  shows "strip s = s"
proof -
  from assms(1,2) have l: "lstrip s = s" by (cases s) (simp_all add: lstrip_def)
  from assms(1,3) have "dropWhile isspace (rev s) = rev s"
    by (cases s rule: rev_cases) simp_all
  then have "rstrip s = s" by (simp add: rstrip_def)
  with l show ?thesis by (simp add: strip_def)
qed

section \<open>The line filters and the entity replacement\<close>


lemma py_replace_absent:
  "old \<noteq> [] \<Longrightarrow> \<not> has_substring old t \<Longrightarrow> py_replace t old new = t"
proof (induction t)
  case Nil
  then show ?case by (subst py_replace.simps) simp
next
  case (Cons c cs)
  then have "py_replace cs old new = cs" and "take (length old) (c # cs) \<noteq> old" by simp_all
  with Cons.prems(1) show ?case by (subst py_replace.simps) simp
qed

lemma replace_all_absent:
  "list_all (\<lambda>(k, v). k \<noteq> [] \<and> \<not> has_substring k t) reps \<Longrightarrow> replace_all reps t = t"
  by (induction reps) (auto simp: py_replace_absent)

lemma replace_all_foldl:
  "replace_all reps t = foldl (\<lambda>t (k, v). py_replace t k v) t reps"
  by (induction reps arbitrary: t) auto

lemma py_replace_Nil: "old \<noteq> [] \<Longrightarrow> py_replace [] old new = []"
  by (subst py_replace.simps) simp

lemma py_replace_skip:
  "old \<noteq> [] \<Longrightarrow> take (length old) (c # t) \<noteq> old \<Longrightarrow>
   py_replace (c # t) old new = c # py_replace t old new"
  by (subst py_replace.simps) simp

lemma py_replace_match:
  "old \<noteq> [] \<Longrightarrow> py_replace (old @ rest) old new = new @ py_replace rest old new"
  by (subst py_replace.simps) simp

lemma py_replace_first:
  assumes "old \<noteq> []" "\<not> has_substring old (pre @ butlast old)"
  shows "py_replace (pre @ old @ rest) old new = pre @ new @ py_replace rest old new"
  using assms(2)
proof (induction pre)
  case Nil
  show ?case using assms(1) by (simp add: py_replace_match)
next
  case (Cons c p)
  from Cons.prems have ne: "take (length old) (c # p @ butlast old) \<noteq> old"
    and rest: "\<not> has_substring old (p @ butlast old)" by simp_all
  have "c # p @ old @ rest = (c # p @ butlast old) @ (last old # rest)"
    using assms(1) by simp
  moreover have "length old \<le> length (c # p @ butlast old)" using assms(1) by simp
  ultimately have "take (length old) (c # p @ old @ rest) = take (length old) (c # p @ butlast old)"
    by (metis take_all_iff take_append append_Nil2 diff_is_0_eq' take_0)
  with ne have "take (length old) (c # p @ old @ rest) \<noteq> old" by simp
  with assms(1) have "py_replace (c # p @ old @ rest) old new = c # py_replace (p @ old @ rest) old new"
    by (rule py_replace_skip)
  with Cons.IH[OF rest] show ?case by simp
qed

lemma py_replace_no_amp:
  "CHR ''&'' \<notin> set t \<Longrightarrow> py_replace t (CHR ''&'' # k) new = t"
proof (induction t)
  case Nil
  show ?case by (simp add: py_replace_Nil)
next
  case (Cons c t)
  then have "take (length (CHR ''&'' # k)) (c # t) \<noteq> CHR ''&'' # k" by auto
  then have "py_replace (c # t) (CHR ''&'' # k) new = c # py_replace t (CHR ''&'' # k) new"
    by (intro py_replace_skip) simp_all
  with Cons show ?case by simp
qed

lemma py_replace_amp:
  assumes "CHR ''&'' \<notin> set pre" "CHR ''&'' \<notin> set r"
  shows "py_replace (pre @ CHR ''&'' # r) (CHR ''&'' # k) new
     = pre @ (if take (length k) r = k then new @ drop (length k) r else CHR ''&'' # r)"
  using assms(1)
proof (induction pre)
  case Nil
  have d: "CHR ''&'' \<notin> set (drop (length k) r)" using assms(2) by (meson in_set_dropD)
  show ?case
  proof (cases "take (length k) r = k")
    case True
    then show ?thesis
      by (subst py_replace.simps) (simp add: py_replace_no_amp[OF d])
  next
    case False
    then show ?thesis
      by (subst py_replace.simps) (simp add: py_replace_no_amp[OF assms(2)])
  qed
next
  case (Cons c p)
  then have "take (length (CHR ''&'' # k)) (c # p @ CHR ''&'' # r) \<noteq> CHR ''&'' # k" by auto
  then have "py_replace (c # p @ CHR ''&'' # r) (CHR ''&'' # k) new
           = c # py_replace (p @ CHR ''&'' # r) (CHR ''&'' # k) new"
    by (intro py_replace_skip) simp_all
  with Cons show ?case by simp
qed

lemma take_neq_member:
  "c \<notin> set xs \<Longrightarrow> c \<in> set ys \<Longrightarrow> (take n xs = ys) = False"
  by (auto dest: in_set_takeD)

lemma entity_in_context_fixed:
  assumes "CHR ''&'' \<notin> set pre" "CHR ''&'' \<notin> set post" "CHR '';'' \<notin> set post"
  shows "list_all (\<lambda>(k, v). replace_all replacements_fixed (pre @ k @ post) = pre @ v @ post)
           replacements_fixed"
  using assms
  by (simp add: replacements_fixed_def py_replace_amp py_replace_no_amp
      take_neq_member[where c = "CHR '';''"])

lemma entity_in_context_aggressive:
  assumes "CHR ''&'' \<notin> set pre" "CHR ''&'' \<notin> set post" "CHR '';'' \<notin> set post"
  shows "list_all (\<lambda>(k, v). replace_all replacements_aggressive (pre @ k @ post) = pre @ v @ post)
           replacements_aggressive"
  using assms
  by (simp add: replacements_aggressive_def py_replace_amp py_replace_no_amp
      take_neq_member[where c = "CHR '';''"])


lemma single_spaced_Cons:
  "single_spaced (c # s)
     = ((if isspace c then c = CHR '' '' \<and> (s = [] \<or> \<not> isspace (hd s)) else True)
        \<and> single_spaced s)"
  by (cases s) auto

lemma re_sub_ws_Nil_iff: "re_sub_ws s = [] \<longleftrightarrow> s = []"
  by (cases s) simp_all

lemma hd_re_sub_ws: "s \<noteq> [] \<Longrightarrow> \<not> isspace (hd s) \<Longrightarrow> hd (re_sub_ws s) = hd s"
  by (cases s) simp_all

lemma single_spaced_re_sub_ws: "single_spaced (re_sub_ws s)"
proof (induction s rule: re_sub_ws.induct)
  case 1
  show ?case by simp
next
  case (2 c cs)
  show ?case
  proof (cases "isspace c")
    case True
    let ?r = "dropWhile isspace cs"
    have "re_sub_ws ?r = [] \<or> \<not> isspace (hd (re_sub_ws ?r))"
    proof (cases "?r = []")
      case True
      have "re_sub_ws ?r = []" unfolding True by simp
      then show ?thesis by (rule disjI1)
    next
      case False
      then have "\<not> isspace (hd ?r)" by (rule hd_dropWhile)
      with False show ?thesis by (simp add: hd_re_sub_ws)
    qed
    moreover have "isspace (CHR '' '')" by (simp add: isspace_def code_def)
    ultimately show ?thesis using True 2 by (simp add: single_spaced_Cons)
  next
    case False
    with 2 show ?thesis by (simp add: single_spaced_Cons)
  qed
qed

lemma re_sub_ws_fixed: "single_spaced s \<Longrightarrow> re_sub_ws s = s"
proof (induction s rule: single_spaced.induct)
  case 1
  show ?case by simp
next
  case (2 c)
  then show ?case by (simp split: if_splits)
next
  case (3 c d cs)
  then show ?case by (auto split: if_splits)
qed

lemma single_spaced_drop: "single_spaced s \<Longrightarrow> single_spaced (drop n s)"
proof (induction n arbitrary: s)
  case 0
  then show ?case by simp
next
  case (Suc n)
  then show ?case by (cases s) (simp_all add: single_spaced_Cons)
qed

lemma single_spaced_take: "single_spaced s \<Longrightarrow> single_spaced (take n s)"
proof (induction s arbitrary: n)
  case Nil
  show ?case by simp
next
  case (Cons c s)
  show ?case
  proof (cases n)
    case 0
    then show ?thesis by simp
  next
    case (Suc m)
    from Cons.prems have s: "single_spaced s" by (simp add: single_spaced_Cons)
    have "take m s = [] \<or> hd (take m s) = hd s" by (cases m; cases s) simp_all
    with Cons.prems Cons.IH[OF s, of m] Suc show ?thesis
      by (auto simp: single_spaced_Cons split: if_splits)
  qed
qed

lemma lstrip_drop: "lstrip s = drop (length (takeWhile isspace s)) s"
  by (simp add: lstrip_def dropWhile_eq_drop)

lemma rstrip_take: "rstrip s = take (length s - length (takeWhile isspace (rev s))) s"
  by (simp add: rstrip_def dropWhile_eq_drop rev_drop)

lemma single_spaced_strip: "single_spaced s \<Longrightarrow> single_spaced (strip s)"
  unfolding strip_def
  by (subst rstrip_take, subst lstrip_drop) (intro single_spaced_take single_spaced_drop)

lemma strip_hd: "strip s \<noteq> [] \<Longrightarrow> \<not> isspace (hd (strip s))"
proof -
  assume ne: "strip s \<noteq> []"
  let ?z = "lstrip s"
  define m where "m = length ?z - length (takeWhile isspace (rev ?z))"
  have m: "strip s = take m ?z" unfolding strip_def m_def by (rule rstrip_take)
  with ne have "0 < m" "?z \<noteq> []" by (cases m; auto)+
  then have "hd (strip s) = hd ?z" using m by (cases m; cases ?z) simp_all
  moreover have "\<not> isspace (hd ?z)" using \<open>?z \<noteq> []\<close> unfolding lstrip_def by (rule hd_dropWhile)
  ultimately show ?thesis by simp
qed

lemma strip_last: "strip s \<noteq> [] \<Longrightarrow> \<not> isspace (last (strip s))"
proof -
  assume ne: "strip s \<noteq> []"
  let ?w = "dropWhile isspace (rev (lstrip s))"
  have s: "strip s = rev ?w" by (simp add: strip_def rstrip_def)
  with ne have w: "?w \<noteq> []" by simp
  then have "\<not> isspace (hd ?w)" by (rule hd_dropWhile)
  moreover have "last (strip s) = hd ?w" using w unfolding s by (simp add: last_rev)
  ultimately show ?thesis by simp
qed

lemma strip_Nil: "strip [] = []"
  by (simp add: strip_def lstrip_def rstrip_def)

lemma strip_strip: "strip (strip s) = strip s"
proof (cases "strip s = []")
  case True
  show ?thesis unfolding True by (rule strip_Nil)
next
  case False
  then show ?thesis by (intro strip_id strip_hd strip_last)
qed

lemma single_spaced_not_linebreak:
  "single_spaced s \<Longrightarrow> c \<in> set s \<Longrightarrow> not_linebreak c"
proof (induction s)
  case Nil
  then show ?case by simp
next
  case (Cons d s)
  have lb: "not_linebreak x" if "isspace x \<longrightarrow> x = CHR '' ''" for x
  proof (cases "isspace x")
    case True
    with that have "x = CHR '' ''" by simp
    then show ?thesis by (simp add: not_linebreak_def is_linebreak_def code_def)
  next
    case False
    then show ?thesis by (auto simp: not_linebreak_def is_linebreak_def isspace_def Let_def)
  qed
  from Cons show ?case by (auto simp: single_spaced_Cons lb split: if_splits)
qed

lemma splitlines_single:
  assumes "s \<noteq> []" "\<And>c. c \<in> set s \<Longrightarrow> not_linebreak c"
  shows "splitlines s = [s]"
proof -
  have tw: "takeWhile not_linebreak s = s" and dw: "dropWhile not_linebreak s = []"
    using assms(2) by simp_all
  show ?thesis
    by (subst splitlines.simps) (simp only: Let_def tw dw assms(1) if_False list.case)
qed

lemma filter_lines_normal:
  "single_spaced (filter_lines keep t)" "strip (filter_lines keep t) = filter_lines keep t"
  by (simp_all add: filter_lines_def single_spaced_strip single_spaced_re_sub_ws strip_strip)

lemma filter_lines_again:
  assumes "single_spaced n" "strip n = n"
  shows "filter_lines keep n = (if keep n then n else [])"
proof (cases "n = []")
  case True
  have "splitlines [] = []" by (subst splitlines.simps) simp
  with True show ?thesis by (simp add: filter_lines_def strip_Nil)
next
  case False
  have sp: "splitlines n = [n]"
    using False single_spaced_not_linebreak[OF assms(1)] by (rule splitlines_single)
  show ?thesis
    by (simp add: filter_lines_def sp Let_def assms re_sub_ws_fixed strip_Nil)
qed

lemma filter_lines_twice:
  "filter_lines keep (filter_lines keep' t)
     = (if keep (filter_lines keep' t) then filter_lines keep' t else [])"
  by (rule filter_lines_again) (rule filter_lines_normal)+

lemma filter_lines_Nil: "filter_lines keep [] = []"
proof -
  have "splitlines [] = []" by (subst splitlines.simps) simp
  then show ?thesis by (simp add: filter_lines_def strip_Nil)
qed

lemma filter_lines_thrice:
  "filter_lines keep (filter_lines keep (filter_lines keep t))
     = filter_lines keep (filter_lines keep t)"
proof (cases "keep (filter_lines keep t)")
  case True
  then have "filter_lines keep (filter_lines keep t) = filter_lines keep t"
    by (simp add: filter_lines_twice)
  then show ?thesis by simp
next
  case False
  then have "filter_lines keep (filter_lines keep t) = []"
    by (simp add: filter_lines_twice)
  then show ?thesis by (simp add: filter_lines_Nil)
qed

section \<open>Claims about the chunker\<close>

text \<open>
  Claim C10. For every text and every configuration with \<open>chunk_size > 0\<close> and
  \<open>0 \<le> overlap < chunk_size\<close>, \<open>quick_chunk_text\<close> terminates: the call, which starts
  the loop at \<open>start = 0\<close> with no chunks, returns a list, and the loop returns from
  every state. An iteration whose window ends before the end of the text goes on with
  \<open>start\<close> moved forward by \<open>chunk_size - overlap\<close>, which is positive; an iteration
  whose window end reaches or exceeds the length of the text leaves the loop with the
  chunks built so far; and the loop is not entered at all once \<open>start\<close> is at or past
  the end of the text.
\<close>

theorem quick_chunk_text_terminates:
  assumes "0 < chunk_size" and "0 \<le> overlap" and "overlap < chunk_size"
  shows "(\<exists>chunks. quick_chunk_text text chunk_size overlap = Some (Inr chunks))
       \<and> (\<forall>start acc. \<exists>chunks. chunk_loop text chunk_size overlap start acc = Some chunks)
       \<and> quick_chunk_text text chunk_size overlap
           = map_option Inr (chunk_loop text chunk_size overlap 0 [])
       \<and> 0 < chunk_size - overlap
       \<and> (\<forall>start acc. start < int (length text) \<and> start + chunk_size < int (length text) \<longrightarrow>
             chunk_loop text chunk_size overlap start acc
               = chunk_loop text chunk_size overlap (start + (chunk_size - overlap))
                   (acc @ filter trimmed_long [py_slice text start (start + chunk_size)]))
       \<and> (\<forall>start acc. start < int (length text) \<and> int (length text) \<le> start + chunk_size \<longrightarrow>
             chunk_loop text chunk_size overlap start acc
               = Some (acc @ filter trimmed_long [py_slice text start (start + chunk_size)]))
       \<and> (\<forall>start acc. int (length text) \<le> start \<longrightarrow>
             chunk_loop text chunk_size overlap start acc = Some acc)"
proof -
  have loop: "\<exists>chunks. chunk_loop text chunk_size overlap start acc = Some chunks" for start acc
    using assms(3) by (rule chunk_loop_returns)
  from loop[of 0 "[]"] have ret: "\<exists>chunks. quick_chunk_text text chunk_size overlap = Some (Inr chunks)"
    by (auto simp: quick_chunk_text_def)
  have call: "quick_chunk_text text chunk_size overlap
           = map_option Inr (chunk_loop text chunk_size overlap 0 [])"
    by (simp add: quick_chunk_text_def)
  have adv: "0 < chunk_size - overlap" using assms(3) by simp
  have step: "chunk_loop text chunk_size overlap start acc
               = chunk_loop text chunk_size overlap (start + (chunk_size - overlap))
                   (acc @ filter trimmed_long [py_slice text start (start + chunk_size)])"
    if "start < int (length text) \<and> start + chunk_size < int (length text)" for start acc
  proof -
    from that have "start < int (length text)" "\<not> int (length text) \<le> start + chunk_size"
      by simp_all
    from chunk_loop_step[OF this] show ?thesis by (simp add: algebra_simps)
  qed
  have last: "chunk_loop text chunk_size overlap start acc
               = Some (acc @ filter trimmed_long [py_slice text start (start + chunk_size)])"
    if "start < int (length text) \<and> int (length text) \<le> start + chunk_size" for start acc
    using that by (simp add: chunk_loop_last)
  have exit: "chunk_loop text chunk_size overlap start acc = Some acc"
    if "int (length text) \<le> start" for start acc
    using that by (simp add: chunk_loop_exit)
  from ret loop call adv step last exit show ?thesis by blast
qed

theorem quick_chunk_text_terminates_witness:
  "(0::int) < 100 \<and> (0::int) \<le> 20 \<and> (20::int) < 100
   \<and> chunk_loop (replicate 250 (CHR ''a'')) 100 20 0 []
       = chunk_loop (replicate 250 (CHR ''a'')) 100 20 80 [replicate 100 (CHR ''a'')]
   \<and> chunk_loop (replicate 250 (CHR ''a'')) 100 20 80 [replicate 100 (CHR ''a'')]
       = chunk_loop (replicate 250 (CHR ''a'')) 100 20 160
           [replicate 100 (CHR ''a''), replicate 100 (CHR ''a'')]
   \<and> chunk_loop (replicate 250 (CHR ''a'')) 100 20 160
           [replicate 100 (CHR ''a''), replicate 100 (CHR ''a'')]
       = Some [replicate 100 (CHR ''a''), replicate 100 (CHR ''a''), replicate 90 (CHR ''a'')]
   \<and> quick_chunk_text (replicate 250 (CHR ''a'')) 100 20
       = Some (Inr [replicate 100 (CHR ''a''), replicate 100 (CHR ''a''), replicate 90 (CHR ''a'')])"
proof -
  let ?T = "replicate 250 (CHR ''a'')"
  have p1: "(0::int) < 100" and p2: "(0::int) \<le> 20" and p3: "(20::int) < 100" by simp_all
  have a: "\<not> isspace (CHR ''a'')" by (simp add: isspace_def code_def)
  have k: "trimmed_long (replicate n (CHR ''a'')) = (50 < n)" for n
    by (simp add: trimmed_long_def strip_replicate a)
  note th = quick_chunk_text_terminates [OF p1 p2 p3, of ?T]
  from th have call: "quick_chunk_text ?T 100 20 = map_option Inr (chunk_loop ?T 100 20 0 [])"
    and step: "\<forall>start acc. start < int (length ?T) \<and> start + 100 < int (length ?T) \<longrightarrow>
             chunk_loop ?T 100 20 start acc
               = chunk_loop ?T 100 20 (start + (100 - 20))
                   (acc @ filter trimmed_long [py_slice ?T start (start + 100)])"
    and last: "\<forall>start acc. start < int (length ?T) \<and> int (length ?T) \<le> start + 100 \<longrightarrow>
             chunk_loop ?T 100 20 start acc
               = Some (acc @ filter trimmed_long [py_slice ?T start (start + 100)])"
    by blast+
  from step[rule_format, of 0 "[]"]
  have s0: "chunk_loop ?T 100 20 0 [] = chunk_loop ?T 100 20 80 [replicate 100 (CHR ''a'')]"
    by (simp add: py_slice_def py_index_def k)
  from step[rule_format, of 80 "[replicate 100 (CHR ''a'')]"]
  have s1: "chunk_loop ?T 100 20 80 [replicate 100 (CHR ''a'')]
       = chunk_loop ?T 100 20 160 [replicate 100 (CHR ''a''), replicate 100 (CHR ''a'')]"
    by (simp add: py_slice_def py_index_def k)
  from last[rule_format, of 160 "[replicate 100 (CHR ''a''), replicate 100 (CHR ''a'')]"]
  have s2: "chunk_loop ?T 100 20 160 [replicate 100 (CHR ''a''), replicate 100 (CHR ''a'')]
       = Some [replicate 100 (CHR ''a''), replicate 100 (CHR ''a''), replicate 90 (CHR ''a'')]"
    by (simp add: py_slice_def py_index_def k)
  from call s0 s1 s2 show ?thesis by simp
qed

text \<open>
  Claim C4. On the letter \<open>A\<close> repeated 5000 times, with \<open>chunk_size = 2048\<close> and
  \<open>overlap = 200\<close>, the result is exactly the three chunks \<open>text[0:2048]\<close>,
  \<open>text[1848:3896]\<close> and \<open>text[3696:5000]\<close>; the last has length 1304, and each has a
  trimmed length above 50.
\<close>

theorem quick_chunk_text_5000:
  "quick_chunk_text (replicate 5000 (CHR ''A'')) 2048 200 =
     Some (Inr [py_slice (replicate 5000 (CHR ''A'')) 0 2048,
                py_slice (replicate 5000 (CHR ''A'')) 1848 3896,
                py_slice (replicate 5000 (CHR ''A'')) 3696 5000])
   \<and> length (py_slice (replicate 5000 (CHR ''A'')) 3696 5000) = 1304
   \<and> 50 < length (strip (py_slice (replicate 5000 (CHR ''A'')) 0 2048))
   \<and> 50 < length (strip (py_slice (replicate 5000 (CHR ''A'')) 1848 3896))
   \<and> 50 < length (strip (py_slice (replicate 5000 (CHR ''A'')) 3696 5000))"
proof -
  have n: "num_windows 5000 2048 200 = 3" by (simp add: num_windows_def)
  have u: "[0..<3] = [0, 1, 2]" by (simp add: upt_rec)
  have A: "\<not> isspace (CHR ''A'')" by (simp add: isspace_def code_def)
  show ?thesis
    by (simp add: quick_chunk_text_closed_form n u window_def window_start_def py_slice_def
        py_index_def trimmed_long_def strip_replicate A)
qed

text \<open>
  Claim C2 (as amended). For every text and every valid configuration
  (\<open>chunk_size > 0\<close>, \<open>0 \<le> overlap < chunk_size\<close>) the call returns the windows of the
  text whose trimmed length exceeds 50, in order. Window \<open>k\<close> is
  \<open>text[s:s + chunk_size]\<close> for \<open>s = k \<times> (chunk_size - overlap)\<close>: the first start is 0,
  each start is the previous one plus \<open>chunk_size - overlap\<close>, and every start lies
  before the end of the text. Every window but the final one has length
  \<open>chunk_size\<close>, and the final one ends at the end of the text. Hence every emitted
  chunk but the last has length \<open>chunk_size\<close>, an emitted chunk of another length is
  the final window, and the last emitted chunk is the final window, ending at the end
  of the text, whenever the final window has a trimmed length above 50. When the
  final window is dropped, the last emitted chunk ends before the end of the text.
\<close>

theorem quick_chunk_text_windows:
  assumes "0 < chunk_size" and "0 \<le> overlap" and "overlap < chunk_size"
  shows "(\<exists>chunks. quick_chunk_text text chunk_size overlap = Some (Inr chunks)
            \<and> chunks = filter trimmed_long (windows text chunk_size overlap)
            \<and> (\<forall>i. Suc i < length chunks \<longrightarrow> length (chunks ! i) = nat chunk_size)
            \<and> (\<forall>w \<in> set chunks. length w = nat chunk_size
                  \<or> w = drop (window_start chunk_size overlap
                                (num_windows (length text) chunk_size overlap - 1)) text)
            \<and> (text \<noteq> []
                 \<and> trimmed_long (drop (window_start chunk_size overlap
                                     (num_windows (length text) chunk_size overlap - 1)) text)
               \<longrightarrow> chunks \<noteq> []
                 \<and> last chunks = drop (window_start chunk_size overlap
                                     (num_windows (length text) chunk_size overlap - 1)) text))
       \<and> window_start chunk_size overlap 0 = 0
       \<and> (\<forall>k. int (window_start chunk_size overlap (Suc k))
                = int (window_start chunk_size overlap k) + (chunk_size - overlap))
       \<and> (\<forall>k < num_windows (length text) chunk_size overlap.
             windows text chunk_size overlap ! k
               = py_slice text (int (window_start chunk_size overlap k))
                               (int (window_start chunk_size overlap k) + chunk_size)
           \<and> window_start chunk_size overlap k < length text
           \<and> (if Suc k < num_windows (length text) chunk_size overlap
              then length (windows text chunk_size overlap ! k) = nat chunk_size
              else window_start chunk_size overlap k
                     + length (windows text chunk_size overlap ! k) = length text))"
proof -
  let ?n = "num_windows (length text) chunk_size overlap"
  let ?ws = "windows text chunk_size overlap"
  let ?chunks = "filter trimmed_long ?ws"
  have c0: "0 \<le> chunk_size" using assms(1) by simp
  have run: "quick_chunk_text text chunk_size overlap = Some (Inr ?chunks)"
    using assms(2,3) by (simp add: quick_chunk_text_closed_form windows_def)
  have inner: "length (?chunks ! i) = nat chunk_size" if "Suc i < length ?chunks" for i
    using filter_nth_butlast[OF that] windows_butlast[OF assms(2,3)] by blast
  have mem: "length w = nat chunk_size \<or> w = drop (window_start chunk_size overlap (?n - 1)) text"
    if "w \<in> set ?chunks" for w
    using that windows_member[OF assms(2,3), of w "text"] by simp
  have first: "window_start chunk_size overlap 0 = 0" by (simp add: window_start_def)
  have succ: "int (window_start chunk_size overlap (Suc k))
                = int (window_start chunk_size overlap k) + (chunk_size - overlap)" for k
    using assms(3) by (simp add: window_start_def algebra_simps)
  have each: "?ws ! k = py_slice text (int (window_start chunk_size overlap k))
                               (int (window_start chunk_size overlap k) + chunk_size)
           \<and> window_start chunk_size overlap k < length text
           \<and> (if Suc k < ?n then length (?ws ! k) = nat chunk_size
              else window_start chunk_size overlap k + length (?ws ! k) = length text)"
    if k: "k < ?n" for k
  proof -
    have w: "?ws ! k = window text chunk_size overlap k" using k by (simp add: windows_def)
    have s: "window_start chunk_size overlap k < length text"
      using num_windows_start[OF assms(2,3) k] by (simp only: window_start_def)
    have "length (window text chunk_size overlap k) = nat chunk_size" if "Suc k < ?n"
      using window_length_inner[OF assms(2,3) that] .
    moreover have "window_start chunk_size overlap k + length (window text chunk_size overlap k)
                     = length text" if "\<not> Suc k < ?n"
    proof -
      from that k have "?n = Suc k" by simp
      from window_final[OF assms(2,3) this] s show ?thesis by simp
    qed
    ultimately show ?thesis using w s window_py_slice[OF c0] by simp
  qed
  have lastk: "?chunks \<noteq> [] \<and> last ?chunks = drop (window_start chunk_size overlap (?n - 1)) text"
    if "text \<noteq> [] \<and> trimmed_long (drop (window_start chunk_size overlap (?n - 1)) text)"
    using windows_last_kept[OF assms(2,3), of "text"] that by blast
  from run inner mem lastk first succ each show ?thesis by blast
qed

theorem quick_chunk_text_windows_witness:
  "(0::int) < 100 \<and> (0::int) \<le> 20 \<and> (20::int) < 100
   \<and> quick_chunk_text (replicate 250 (CHR ''a'')) 100 20
       = Some (Inr [replicate 100 (CHR ''a''), replicate 100 (CHR ''a''), replicate 90 (CHR ''a'')])
   \<and> window_start 100 20 0 = 0 \<and> window_start 100 20 1 = 80 \<and> window_start 100 20 2 = 160
   \<and> windows (replicate 250 (CHR ''a'')) 100 20 ! 2 = py_slice (replicate 250 (CHR ''a'')) 160 260
   \<and> window_start 100 20 2 + length (windows (replicate 250 (CHR ''a'')) 100 20 ! 2) = 250
   \<and> replicate 250 (CHR ''a'') \<noteq> []
   \<and> trimmed_long (drop 160 (replicate 250 (CHR ''a'')))
   \<and> last (filter trimmed_long (windows (replicate 250 (CHR ''a'')) 100 20))
       = drop 160 (replicate 250 (CHR ''a''))"
proof -
  let ?T = "replicate 250 (CHR ''a'')"
  have n: "num_windows 250 100 20 = 3" by (simp add: num_windows_def)
  have u: "[0..<3] = [0, 1, 2]" by (simp add: upt_rec)
  have a: "\<not> isspace (CHR ''a'')" by (simp add: isspace_def code_def)
  have ws: "windows ?T 100 20
    = [replicate 100 (CHR ''a''), replicate 100 (CHR ''a''), replicate 90 (CHR ''a'')]"
    by (simp add: windows_def n u window_def window_start_def)
  have s: "window_start 100 20 2 = 160" by (simp add: window_start_def)
  have ne: "?T \<noteq> []" by simp
  have kl: "trimmed_long (drop 160 ?T)" by (simp add: trimmed_long_def strip_replicate a)
  have p1: "(0::int) < 100" and p2: "(0::int) \<le> 20" and p3: "(20::int) < 100" by simp_all
  note th = quick_chunk_text_windows [OF p1 p2 p3, of ?T]
  from th have run: "quick_chunk_text ?T 100 20 = Some (Inr (filter trimmed_long (windows ?T 100 20)))"
    and lastk: "?T \<noteq> []
                 \<and> trimmed_long (drop (window_start 100 20 (num_windows (length ?T) 100 20 - 1)) ?T)
               \<longrightarrow> filter trimmed_long (windows ?T 100 20) \<noteq> []
                 \<and> last (filter trimmed_long (windows ?T 100 20))
                     = drop (window_start 100 20 (num_windows (length ?T) 100 20 - 1)) ?T"
    and each: "\<forall>k < num_windows (length ?T) 100 20.
             windows ?T 100 20 ! k
               = py_slice ?T (int (window_start 100 20 k)) (int (window_start 100 20 k) + 100)
           \<and> window_start 100 20 k < length ?T
           \<and> (if Suc k < num_windows (length ?T) 100 20
              then length (windows ?T 100 20 ! k) = nat 100
              else window_start 100 20 k + length (windows ?T 100 20 ! k) = length ?T)"
    by blast+
  from spec [OF each, of 2] have "windows ?T 100 20 ! 2
               = py_slice ?T (int (window_start 100 20 2)) (int (window_start 100 20 2) + 100)
      \<and> window_start 100 20 2 + length (windows ?T 100 20 ! 2) = 250"
    by (auto simp: n)
  moreover from lastk kl ne
  have "last (filter trimmed_long (windows ?T 100 20)) = drop 160 ?T"
    by (simp add: n s)
  ultimately show ?thesis using run kl
    by (simp add: ws s trimmed_long_def strip_replicate a window_start_def py_slice_def py_index_def)
qed

theorem quick_chunk_text_windows_counterexample:
  "quick_chunk_text (replicate 100 (CHR ''a'') @ ''b'') 100 40
     = Some (Inr [py_slice (replicate 100 (CHR ''a'') @ ''b'') 0 100])
   \<and> py_slice (replicate 100 (CHR ''a'') @ ''b'') 0 100 = replicate 100 (CHR ''a'')
   \<and> 0 + length (py_slice (replicate 100 (CHR ''a'') @ ''b'') 0 100)
       \<noteq> length (replicate 100 (CHR ''a'') @ ''b'')"
proof -
  let ?T = "replicate 100 (CHR ''a'') @ ''b''"
  have n: "num_windows (length ?T) 100 40 = 2" by (simp add: num_windows_def)
  have u: "[0..<2] = [0, 1]" by (simp add: upt_rec)
  have a: "\<not> isspace (CHR ''a'')" and b: "\<not> isspace (CHR ''b'')"
    by (simp_all add: isspace_def code_def)
  have w0: "window ?T 100 40 0 = replicate 100 (CHR ''a'')"
    by (simp add: window_def window_start_def)
  have w1: "window ?T 100 40 1 = replicate 40 (CHR ''a'') @ ''b''"
    by (simp add: window_def window_start_def)
  have k0: "trimmed_long (replicate 100 (CHR ''a''))"
    by (simp add: trimmed_long_def strip_replicate a)
  have "length (strip (replicate 40 (CHR ''a'') @ ''b'')) \<le> length (replicate 40 (CHR ''a'') @ ''b'')"
    by (simp add: strip_id a b hd_append)
  then have k1: "\<not> trimmed_long (replicate 40 (CHR ''a'') @ ''b'')"
    by (simp add: trimmed_long_def)
  have run: "quick_chunk_text ?T 100 40 = Some (Inr [replicate 100 (CHR ''a'')])"
    by (simp only: quick_chunk_text_closed_form n u list.map w0 w1 filter.simps k0 k1
        if_True if_False)
  have sl: "py_slice ?T 0 100 = replicate 100 (CHR ''a'')"
    by (simp add: py_slice_def py_index_def)
  from run sl show ?thesis by simp
qed

text \<open>
  Claim C5. No emitted chunk has a trimmed length of 50 or less, whatever the
  configuration. On a text whose own trimmed length is at most 50 the call raises
  nothing and emits nothing: every slice of such a text is dropped, and the call
  returns the empty list whenever \<open>overlap < chunk_size\<close>, which every ChunkingConfig
  satisfies.
\<close>

theorem quick_chunk_text_min_trimmed:
  "(\<forall>chunks. quick_chunk_text text chunk_size overlap = Some (Inr chunks)
       \<longrightarrow> (\<forall>w \<in> set chunks. 50 < length (strip w)))
   \<and> (length (strip text) \<le> 50 \<longrightarrow>
        quick_chunk_text text chunk_size overlap \<noteq> Some (Inl e)
        \<and> (\<forall>chunks. quick_chunk_text text chunk_size overlap = Some (Inr chunks) \<longrightarrow> chunks = [])
        \<and> (overlap < chunk_size \<longrightarrow> quick_chunk_text text chunk_size overlap = Some (Inr [])))"
proof -
  have kept: "50 < length (strip w)"
    if "quick_chunk_text text chunk_size overlap = Some (Inr chunks)" "w \<in> set chunks" for chunks w
  proof -
    from that(1) have "chunk_loop text chunk_size overlap 0 [] = Some chunks"
      by (auto simp: quick_chunk_text_def)
    from chunk_loop_kept[OF this _ that(2)] show ?thesis by simp
  qed
  have noerr: "quick_chunk_text text chunk_size overlap \<noteq> Some (Inl e)"
    by (auto simp: quick_chunk_text_def)
  have empty: "chunks = []"
    if "length (strip text) \<le> 50" "quick_chunk_text text chunk_size overlap = Some (Inr chunks)"
    for chunks
  proof -
    from that(2) have "chunk_loop text chunk_size overlap 0 [] = Some chunks"
      by (auto simp: quick_chunk_text_def)
    from chunk_loop_short[OF this that(1)] show ?thesis .
  qed
  have ret: "quick_chunk_text text chunk_size overlap = Some (Inr [])"
    if "length (strip text) \<le> 50" "overlap < chunk_size"
  proof -
    from chunk_loop_returns[OF that(2), of "text" 0 "[]"] obtain ws
      where ws: "chunk_loop text chunk_size overlap 0 [] = Some ws" by blast
    from chunk_loop_short[OF ws that(1)] ws show ?thesis by (simp add: quick_chunk_text_def)
  qed
  from kept noerr empty ret show ?thesis by blast
qed

theorem quick_chunk_text_min_trimmed_witness:
  "quick_chunk_text (replicate 60 (CHR ''a'')) 100 20 = Some (Inr [replicate 60 (CHR ''a'')])
   \<and> 50 < length (strip (replicate 60 (CHR ''a'')))
   \<and> length (strip ''  Net sales  '') \<le> 50 \<and> (20::int) < 100
   \<and> quick_chunk_text ''  Net sales  '' 100 20 = Some (Inr [])"
proof -
  have a: "\<not> isspace (CHR ''a'')" by (simp add: isspace_def code_def)
  have n: "num_windows 60 100 20 = 1" by (simp add: num_windows_def)
  have run: "quick_chunk_text (replicate 60 (CHR ''a'')) 100 20 = Some (Inr [replicate 60 (CHR ''a'')])"
    by (simp add: quick_chunk_text_closed_form n window_def window_start_def trimmed_long_def
        strip_replicate a)
  have short: "length (strip ''  Net sales  '') \<le> 50"
    by (simp add: strip_def lstrip_def rstrip_def isspace_def code_def)
  have lt: "(20::int) < 100" by simp
  note th1 = quick_chunk_text_min_trimmed [of "replicate 60 (CHR ''a'')" 100 20]
  note th2 = quick_chunk_text_min_trimmed [of "''  Net sales  ''" 100 20]
  from th1 run have "50 < length (strip (replicate 60 (CHR ''a'')))" by simp
  moreover from th2 short lt have "quick_chunk_text ''  Net sales  '' 100 20 = Some (Inr [])"
    by blast
  ultimately show ?thesis using run short lt by blast
qed

text \<open>
  Claim C1 (as amended). \<open>quick_chunk_text\<close> has no validation step and raises nothing,
  whatever the configuration: it goes straight into its loop. With
  \<open>overlap < chunk_size\<close> the call returns a list, also when \<open>chunk_size \<le> 0\<close>. On a text
  that is empty or no longer than \<open>chunk_size\<close> the call returns after at most one
  iteration, also when \<open>overlap \<ge> chunk_size\<close>: the result is the whole text if its
  trimmed length exceeds 50, and the empty list otherwise.
\<close>

theorem quick_chunk_text_no_validation:
  "quick_chunk_text text chunk_size overlap \<noteq> Some (Inl e)
   \<and> (overlap < chunk_size \<longrightarrow>
        (\<exists>chunks. quick_chunk_text text chunk_size overlap = Some (Inr chunks)))
   \<and> (text = [] \<or> int (length text) \<le> chunk_size \<longrightarrow>
        quick_chunk_text text chunk_size overlap = Some (Inr (filter trimmed_long [text])))"
proof -
  have "\<exists>chunks. quick_chunk_text text chunk_size overlap = Some (Inr chunks)"
    if "overlap < chunk_size"
    using chunk_loop_returns[OF that, of "text" 0 "[]"] by (auto simp: quick_chunk_text_def)
  then show ?thesis
    using quick_chunk_text_never_raises quick_chunk_text_short by blast
qed

theorem quick_chunk_text_no_validation_witness:
  "quick_chunk_text (replicate 60 (CHR ''a'')) 100 150 \<noteq> Some (Inl ConfigError)
   \<and> (-10::int) < -5
   \<and> (\<exists>chunks. quick_chunk_text (replicate 60 (CHR ''a'')) (-5) (-10) = Some (Inr chunks))
   \<and> int (length (replicate 60 (CHR ''a''))) \<le> 100
   \<and> quick_chunk_text (replicate 60 (CHR ''a'')) 100 150 = Some (Inr [replicate 60 (CHR ''a'')])"
proof -
  have a: "\<not> isspace (CHR ''a'')" by (simp add: isspace_def code_def)
  note th1 = quick_chunk_text_no_validation [of "replicate 60 (CHR ''a'')" 100 150 ConfigError]
  note th2 = quick_chunk_text_no_validation [of "replicate 60 (CHR ''a'')" "-5" "-10" ConfigError]
  from th1 have "quick_chunk_text (replicate 60 (CHR ''a'')) 100 150 \<noteq> Some (Inl ConfigError)"
    by blast
  moreover from th2
  have "\<exists>chunks. quick_chunk_text (replicate 60 (CHR ''a'')) (-5) (-10) = Some (Inr chunks)"
    by simp
  moreover from th1
  have "quick_chunk_text (replicate 60 (CHR ''a'')) 100 150 = Some (Inr [replicate 60 (CHR ''a'')])"
    by (simp add: trimmed_long_def strip_replicate a)
  ultimately show ?thesis by simp
qed

theorem config_error_counterexample:
  "quick_chunk_text (replicate 60 (CHR ''a'')) 100 150 = Some (Inr [replicate 60 (CHR ''a'')])
   \<and> quick_chunk_text (replicate 60 (CHR ''a'')) 100 150 \<noteq> Some (Inl ConfigError)
   \<and> quick_chunk_text (replicate 101 (CHR ''a'')) 100 150 = None
   \<and> quick_chunk_text (replicate 101 (CHR ''a'')) 100 150 \<noteq> Some (Inl ConfigError)
   \<and> quick_chunk_text ''a'' 0 0 = None"
proof -
  have a: "\<not> isspace (CHR ''a'')" by (simp add: isspace_def code_def)
  show ?thesis
    by (simp add: quick_chunk_text_overlap_ge trimmed_long_def strip_replicate a)
qed

text \<open>
  Claim C3 (as amended). For every text and every valid configuration, the emitted
  chunks are the windows whose trimmed length exceeds 50, and two chunks emitted one
  after the other overlap by \<open>overlap\<close> characters whenever they come from consecutive
  windows, that is, whenever no window between them was dropped by the trimmed-length
  guard: the later chunk then begins with the last \<open>overlap\<close> characters of the
  earlier one, which has length \<open>chunk_size\<close>. Across a dropped window the property
  fails, as the counterexample shows.
\<close>

theorem adjacent_chunks_overlap:
  assumes "0 \<le> overlap" and "overlap < chunk_size"
  shows "\<exists>chunks. quick_chunk_text text chunk_size overlap = Some (Inr chunks)
         \<and> chunks = map (window text chunk_size overlap) (kept_windows text chunk_size overlap)
         \<and> (\<forall>i. Suc i < length chunks
                \<and> kept_windows text chunk_size overlap ! Suc i
                    = Suc (kept_windows text chunk_size overlap ! i)
              \<longrightarrow> take (nat overlap) (chunks ! Suc i)
                    = drop (length (chunks ! i) - nat overlap) (chunks ! i)
                \<and> length (chunks ! i) = nat chunk_size
                \<and> nat overlap < length (chunks ! Suc i))"
proof -
  let ?ks = "kept_windows text chunk_size overlap"
  let ?chunks = "map (window text chunk_size overlap) ?ks"
  have run: "quick_chunk_text text chunk_size overlap = Some (Inr ?chunks)"
    using assms by (rule quick_chunk_text_kept_windows)
  have adj: "take (nat overlap) (?chunks ! Suc i)
                    = drop (length (?chunks ! i) - nat overlap) (?chunks ! i)
                \<and> length (?chunks ! i) = nat chunk_size
                \<and> nat overlap < length (?chunks ! Suc i)"
    if i: "Suc i < length ?chunks" and nx: "?ks ! Suc i = Suc (?ks ! i)" for i
  proof -
    from i have "?ks ! Suc i \<in> set ?ks" by simp
    then have "Suc (?ks ! i) < num_windows (length text) chunk_size overlap"
      using kept_windows_bound nx by metis
    from adjacent_windows[OF assms this] i nx show ?thesis by simp
  qed
  from run adj show ?thesis by blast
qed

theorem adjacent_chunks_overlap_witness:
  "(0::int) \<le> 20 \<and> (20::int) < 100
   \<and> quick_chunk_text (replicate 90 (CHR ''a'') @ replicate 160 (CHR ''b'')) 100 20
       = Some (Inr [replicate 90 (CHR ''a'') @ replicate 10 (CHR ''b''),
                    replicate 10 (CHR ''a'') @ replicate 90 (CHR ''b''),
                    replicate 90 (CHR ''b'')])
   \<and> kept_windows (replicate 90 (CHR ''a'') @ replicate 160 (CHR ''b'')) 100 20 = [0, 1, 2]
   \<and> take 20 (replicate 10 (CHR ''a'') @ replicate 90 (CHR ''b''))
       = drop 80 (replicate 90 (CHR ''a'') @ replicate 10 (CHR ''b''))"
proof -
  let ?T = "replicate 90 (CHR ''a'') @ replicate 160 (CHR ''b'')"
  have p1: "(0::int) \<le> 20" and p2: "(20::int) < 100" by simp_all
  have n: "num_windows (length ?T) 100 20 = 3" by (simp add: num_windows_def)
  have u: "[0..<3] = [0, 1, 2]" by (simp add: upt_rec)
  have a: "\<not> isspace (CHR ''a'')" and b: "\<not> isspace (CHR ''b'')"
    by (simp_all add: isspace_def code_def)
  have w0: "window ?T 100 20 0 = replicate 90 (CHR ''a'') @ replicate 10 (CHR ''b'')"
    by (simp add: window_def window_start_def)
  have w1: "window ?T 100 20 1 = replicate 10 (CHR ''a'') @ replicate 90 (CHR ''b'')"
    by (simp add: window_def window_start_def)
  have w2: "window ?T 100 20 2 = replicate 90 (CHR ''b'')"
    by (simp add: window_def window_start_def)
  have k0: "trimmed_long (replicate 90 (CHR ''a'') @ replicate 10 (CHR ''b''))"
    by (simp add: trimmed_long_def strip_id a b hd_append)
  have k1: "trimmed_long (replicate 10 (CHR ''a'') @ replicate 90 (CHR ''b''))"
    by (simp add: trimmed_long_def strip_id a b hd_append)
  have k2: "trimmed_long (replicate 90 (CHR ''b''))"
    by (simp add: trimmed_long_def strip_replicate b)
  have ks: "kept_windows ?T 100 20 = [0, 1, 2]"
    by (simp only: kept_windows_def n u filter.simps w0 w1 w2 k0 k1 k2 if_True)
  from adjacent_chunks_overlap [OF p1 p2, of ?T] obtain chunks where
    run: "quick_chunk_text ?T 100 20 = Some (Inr chunks)" and
    ch: "chunks = map (window ?T 100 20) (kept_windows ?T 100 20)" and
    adj: "\<forall>i. Suc i < length chunks
                \<and> kept_windows ?T 100 20 ! Suc i = Suc (kept_windows ?T 100 20 ! i)
              \<longrightarrow> take (nat 20) (chunks ! Suc i)
                    = drop (length (chunks ! i) - nat 20) (chunks ! i)
                \<and> length (chunks ! i) = nat 100
                \<and> nat 20 < length (chunks ! Suc i)"
    by blast
  have chunks: "chunks = [replicate 90 (CHR ''a'') @ replicate 10 (CHR ''b''),
                    replicate 10 (CHR ''a'') @ replicate 90 (CHR ''b''),
                    replicate 90 (CHR ''b'')]"
    by (simp only: ch ks list.map w0 w1 w2)
  from spec [OF adj, of 0]
  have "take 20 (replicate 10 (CHR ''a'') @ replicate 90 (CHR ''b''))
       = drop 80 (replicate 90 (CHR ''a'') @ replicate 10 (CHR ''b''))"
    unfolding chunks ks by simp
  with run chunks ks show ?thesis by simp
qed

theorem adjacent_chunks_overlap_counterexample:
  "quick_chunk_text (replicate 60 (CHR ''a'') @ replicate 59 (CHR '' '') @ replicate 59 (CHR ''b'')) 60 1
     = Some (Inr [replicate 60 (CHR ''a''), CHR '' '' # replicate 59 (CHR ''b'')])
   \<and> take 1 (CHR '' '' # replicate 59 (CHR ''b''))
       \<noteq> drop (length (replicate 60 (CHR ''a'')) - 1) (replicate 60 (CHR ''a''))"
proof -
  let ?T = "replicate 60 (CHR ''a'') @ replicate 59 (CHR '' '') @ replicate 59 (CHR ''b'')"
  have n: "num_windows (length ?T) 60 1 = 3" by (simp add: num_windows_def)
  have u: "[0..<3] = [0, 1, 2]" by (simp add: upt_rec)
  have a: "\<not> isspace (CHR ''a'')" by (simp add: isspace_def code_def)
  have w0: "window ?T 60 1 0 = replicate 60 (CHR ''a'')"
    by (simp add: window_def window_start_def)
  have w1: "window ?T 60 1 1 = CHR ''a'' # replicate 59 (CHR '' '')"
    by (simp add: window_def window_start_def)
  have w2: "window ?T 60 1 2 = CHR '' '' # replicate 59 (CHR ''b'')"
    by (simp add: window_def window_start_def)
  have k0: "trimmed_long (replicate 60 (CHR ''a''))"
    by (simp add: trimmed_long_def strip_replicate a)
  have k1: "\<not> trimmed_long (CHR ''a'' # replicate 59 (CHR '' ''))" by code_simp
  have k2: "trimmed_long (CHR '' '' # replicate 59 (CHR ''b''))" by code_simp
  have "quick_chunk_text ?T 60 1
     = Some (Inr [replicate 60 (CHR ''a''), CHR '' '' # replicate 59 (CHR ''b'')])"
    by (simp only: quick_chunk_text_closed_form n u list.map w0 w1 w2 filter.simps k0 k1 k2
        if_True if_False)
  moreover have "take 1 (CHR '' '' # replicate 59 (CHR ''b''))
       \<noteq> drop (length (replicate 60 (CHR ''a'')) - 1) (replicate 60 (CHR ''a''))"
    by simp
  ultimately show ?thesis by blast
qed

section \<open>Claims about the text extractor\<close>

text \<open>
  Claim C8. The permissive line filter keeps the line
  \<open>Total revenue was $265.6 billion for the year\<close> and discards the lines
  \<open>12/31 34.5% 99.1\<close> and \<open>***\<close>: as single decisions of the loop body, as a run of
  the loop over the three lines, and as the result of the filter stage on the text
  made of the three lines.
\<close>

theorem permissive_examples:
  "keep_line_fixed ''Total revenue was $265.6 billion for the year''
   \<and> \<not> keep_line_fixed ''12/31 34.5% 99.1''
   \<and> \<not> keep_line_fixed ''***''
   \<and> line_loop keep_line_fixed
         [''Total revenue was $265.6 billion for the year'', ''12/31 34.5% 99.1'', ''***''] []
       = [''Total revenue was $265.6 billion for the year'']
   \<and> filter_lines_fixed
         (''Total revenue was $265.6 billion for the year'' @ [CHR 0x0A]
            @ ''12/31 34.5% 99.1'' @ [CHR 0x0A] @ ''***'')
       = ''Total revenue was $265.6 billion for the year''"
  by code_simp


text \<open>
  Claim C7 (as amended). The entity step applies \<open>text.replace(k, v)\<close> for the entries
  of the revision's table one after the other, in table order; each call replaces the
  occurrences of \<open>k\<close> from left to right and leaves a text without \<open>k\<close> as it is, and a
  later entry sees the result of the earlier ones (so \<open>&amp;lt;\<close> becomes \<open><\<close>, while
  \<open>&amp;nbsp;\<close> becomes \<open>&nbsp;\<close>). Both revisions replace \<open>&nbsp;\<close> by a space,
  \<open>&amp;\<close>, \<open>&lt;\<close>, \<open>&gt;\<close> and \<open>&quot;\<close> by their characters, the right single
  quote \<open>&#8217;\<close> by an ASCII apostrophe, the double quotes \<open>&#8220;\<close> and \<open>&#8221;\<close>
  by an ASCII double quote and the en dash \<open>&#x2013;\<close> by a hyphen; the permissive
  revision also replaces the em dash \<open>&#x2014;\<close> by a hyphen. An entity of the table
  that stands in a text with no other \<open>&\<close> and with no \<open>;\<close> after it is replaced in
  place by its character. The left single quote \<open>&#8216;\<close> is in neither table and
  stays as it is. A text in which no entity name of a revision's table occurs is
  returned unchanged by that revision; nothing is raised.
\<close>

theorem entity_replacement:
  "map (replace_all replacements_fixed)
       [''&nbsp;'', ''&amp;'', ''&lt;'', ''&gt;'', ''&quot;'', ''&#8217;'', ''&#8220;'', ''&#8221;'',
        ''&#x2013;'', ''&#x2014;'']
     = ['' '', ''&'', ''<'', ''>'', [CHR 0x22], [CHR 0x27], [CHR 0x22], [CHR 0x22], ''-'', ''-'']
   \<and> map (replace_all replacements_aggressive)
       [''&nbsp;'', ''&amp;'', ''&lt;'', ''&gt;'', ''&quot;'', ''&#8217;'', ''&#8220;'', ''&#8221;'',
        ''&#x2013;'']
     = ['' '', ''&'', ''<'', ''>'', [CHR 0x22], [CHR 0x27], [CHR 0x22], [CHR 0x22], ''-'']
   \<and> replace_all replacements_fixed ''&#8216;'' = ''&#8216;''
   \<and> replace_all replacements_aggressive ''&#8216;'' = ''&#8216;''
   \<and> (list_all (\<lambda>k. \<not> has_substring k text) (map fst replacements_fixed)
        \<longrightarrow> replace_all replacements_fixed text = text)
   \<and> (list_all (\<lambda>k. \<not> has_substring k text) (map fst replacements_aggressive)
        \<longrightarrow> replace_all replacements_aggressive text = text)
   \<and> replace_all replacements_fixed text
       = foldl (\<lambda>t (k, v). py_replace t k v) text replacements_fixed
   \<and> replace_all replacements_aggressive text
       = foldl (\<lambda>t (k, v). py_replace t k v) text replacements_aggressive
   \<and> (old \<noteq> [] \<and> \<not> has_substring old t \<longrightarrow> py_replace t old new = t)
   \<and> (old \<noteq> [] \<and> \<not> has_substring old (pre @ butlast old)
        \<longrightarrow> py_replace (pre @ old @ rest) old new = pre @ new @ py_replace rest old new)
   \<and> (CHR ''&'' \<notin> set pre \<and> CHR ''&'' \<notin> set post \<and> CHR '';'' \<notin> set post
        \<longrightarrow> list_all (\<lambda>(k, v). replace_all replacements_fixed (pre @ k @ post) = pre @ v @ post)
              replacements_fixed
          \<and> list_all (\<lambda>(k, v). replace_all replacements_aggressive (pre @ k @ post) = pre @ v @ post)
              replacements_aggressive)
   \<and> replace_all replacements_fixed ''&amp;lt;'' = ''<''
   \<and> replace_all replacements_fixed ''&amp;nbsp;'' = ''&nbsp;''
   \<and> replace_all replacements_aggressive ''&amp;lt;'' = ''<''
   \<and> replace_all replacements_aggressive ''&amp;nbsp;'' = ''&nbsp;''
   \<and> replace_all replacements_fixed ''AT&amp;T&nbsp;&lt;5&#x2013;6&gt; &#8217;21 &copy;''
       = ''AT&T <5-6> '' @ [CHR 0x27] @ ''21 &copy;''
   \<and> replace_all replacements_aggressive ''AT&amp;T&nbsp;&lt;5&#x2013;6&gt; &#8217;21 &copy;''
       = ''AT&T <5-6> '' @ [CHR 0x27] @ ''21 &copy;''"
proof -
  have f: "map (replace_all replacements_fixed)
       [''&nbsp;'', ''&amp;'', ''&lt;'', ''&gt;'', ''&quot;'', ''&#8217;'', ''&#8220;'', ''&#8221;'',
        ''&#x2013;'', ''&#x2014;'']
     = ['' '', ''&'', ''<'', ''>'', [CHR 0x22], [CHR 0x27], [CHR 0x22], [CHR 0x22], ''-'', ''-'']"
    by code_simp
  have a: "map (replace_all replacements_aggressive)
       [''&nbsp;'', ''&amp;'', ''&lt;'', ''&gt;'', ''&quot;'', ''&#8217;'', ''&#8220;'', ''&#8221;'',
        ''&#x2013;'']
     = ['' '', ''&'', ''<'', ''>'', [CHR 0x22], [CHR 0x27], [CHR 0x22], [CHR 0x22], ''-'']"
    by code_simp
  have l1: "replace_all replacements_fixed ''&#8216;'' = ''&#8216;''" by code_simp
  have l2: "replace_all replacements_aggressive ''&#8216;'' = ''&#8216;''" by code_simp
  have u1: "replace_all replacements_fixed text = text"
    if "list_all (\<lambda>k. \<not> has_substring k text) (map fst replacements_fixed)"
    using that by (intro replace_all_absent) (simp add: replacements_fixed_def)
  have u2: "replace_all replacements_aggressive text = text"
    if "list_all (\<lambda>k. \<not> has_substring k text) (map fst replacements_aggressive)"
    using that by (intro replace_all_absent) (simp add: replacements_aggressive_def)
  have o1: "replace_all replacements_fixed text
       = foldl (\<lambda>t (k, v). py_replace t k v) text replacements_fixed"
    and o2: "replace_all replacements_aggressive text
       = foldl (\<lambda>t (k, v). py_replace t k v) text replacements_aggressive"
    by (rule replace_all_foldl)+
  have r1: "py_replace t old new = t" if "old \<noteq> [] \<and> \<not> has_substring old t"
    using that by (simp add: py_replace_absent)
  have r2: "py_replace (pre @ old @ rest) old new = pre @ new @ py_replace rest old new"
    if "old \<noteq> [] \<and> \<not> has_substring old (pre @ butlast old)"
    using that by (simp add: py_replace_first)
  have c: "list_all (\<lambda>(k, v). replace_all replacements_fixed (pre @ k @ post) = pre @ v @ post)
              replacements_fixed
          \<and> list_all (\<lambda>(k, v). replace_all replacements_aggressive (pre @ k @ post) = pre @ v @ post)
              replacements_aggressive"
    if "CHR ''&'' \<notin> set pre \<and> CHR ''&'' \<notin> set post \<and> CHR '';'' \<notin> set post"
    using that entity_in_context_fixed entity_in_context_aggressive by blast
  have e1: "replace_all replacements_fixed ''&amp;lt;'' = ''<''" by code_simp
  have e2: "replace_all replacements_fixed ''&amp;nbsp;'' = ''&nbsp;''" by code_simp
  have e3: "replace_all replacements_aggressive ''&amp;lt;'' = ''<''" by code_simp
  have e4: "replace_all replacements_aggressive ''&amp;nbsp;'' = ''&nbsp;''" by code_simp
  have e5: "replace_all replacements_fixed ''AT&amp;T&nbsp;&lt;5&#x2013;6&gt; &#8217;21 &copy;''
       = ''AT&T <5-6> '' @ [CHR 0x27] @ ''21 &copy;''" by code_simp
  have e6: "replace_all replacements_aggressive ''AT&amp;T&nbsp;&lt;5&#x2013;6&gt; &#8217;21 &copy;''
       = ''AT&T <5-6> '' @ [CHR 0x27] @ ''21 &copy;''" by code_simp
  show ?thesis
    by (intro conjI impI f a l1 l2 u1 u2 o1 o2 r1 r2 e1 e2 e3 e4 e5 e6 c[THEN conjunct1] c[THEN conjunct2])
       simp_all
qed

theorem entity_replacement_witness:
  "list_all (\<lambda>k. \<not> has_substring k ''&copy; 2021 R&D &euro;5'') (map fst replacements_fixed)
   \<and> replace_all replacements_fixed ''&copy; 2021 R&D &euro;5'' = ''&copy; 2021 R&D &euro;5''
   \<and> list_all (\<lambda>k. \<not> has_substring k ''&copy; 2021 R&D &euro;5'') (map fst replacements_aggressive)
   \<and> replace_all replacements_aggressive ''&copy; 2021 R&D &euro;5'' = ''&copy; 2021 R&D &euro;5''
   \<and> ''&lt;'' \<noteq> [] \<and> \<not> has_substring ''&lt;'' ''a&b ''
   \<and> py_replace ''a&b '' ''&lt;'' ''<'' = ''a&b ''
   \<and> \<not> has_substring ''&lt;'' (''Sales; '' @ butlast ''&lt;'')
   \<and> py_replace (''Sales; '' @ ''&lt;'' @ ''c&lt;d'') ''&lt;'' ''<''
       = ''Sales; '' @ ''<'' @ py_replace ''c&lt;d'' ''&lt;'' ''<''
   \<and> CHR ''&'' \<notin> set ''Sales; '' \<and> CHR ''&'' \<notin> set '' 5%'' \<and> CHR '';'' \<notin> set '' 5%''
   \<and> replace_all replacements_fixed (''Sales; '' @ ''&gt;'' @ '' 5%'') = ''Sales; '' @ ''>'' @ '' 5%''
   \<and> replace_all replacements_aggressive (''Sales; '' @ ''&amp;'' @ '' 5%'')
       = ''Sales; '' @ ''&'' @ '' 5%''"
proof -
  have h1: "list_all (\<lambda>k. \<not> has_substring k ''&copy; 2021 R&D &euro;5'') (map fst replacements_fixed)"
    by code_simp
  have h2: "list_all (\<lambda>k. \<not> has_substring k ''&copy; 2021 R&D &euro;5'') (map fst replacements_aggressive)"
    by code_simp
  have h3: "''&lt;'' \<noteq> [] \<and> \<not> has_substring ''&lt;'' ''a&b ''" by simp
  have h4: "''&lt;'' \<noteq> [] \<and> \<not> has_substring ''&lt;'' (''Sales; '' @ butlast ''&lt;'')" by simp
  have h5: "CHR ''&'' \<notin> set ''Sales; '' \<and> CHR ''&'' \<notin> set '' 5%'' \<and> CHR '';'' \<notin> set '' 5%''"
    by simp
  note th = entity_replacement [of "''&copy; 2021 R&D &euro;5''" "''&lt;''" "''a&b ''" "''<''"
      "''Sales; ''" "''c&lt;d''" "'' 5%''"]
  from th h1 have g1: "replace_all replacements_fixed ''&copy; 2021 R&D &euro;5'' = ''&copy; 2021 R&D &euro;5''"
    by blast
  from th h2
  have g2: "replace_all replacements_aggressive ''&copy; 2021 R&D &euro;5'' = ''&copy; 2021 R&D &euro;5''"
    by blast
  from th h3 have g3: "py_replace ''a&b '' ''&lt;'' ''<'' = ''a&b ''" by blast
  from th h4 have g4: "py_replace (''Sales; '' @ ''&lt;'' @ ''c&lt;d'') ''&lt;'' ''<''
       = ''Sales; '' @ ''<'' @ py_replace ''c&lt;d'' ''&lt;'' ''<''" by blast
  from th h5 have g5: "list_all (\<lambda>(k, v). replace_all replacements_fixed (''Sales; '' @ k @ '' 5%'')
                = ''Sales; '' @ v @ '' 5%'') replacements_fixed"
    and g6: "list_all (\<lambda>(k, v). replace_all replacements_aggressive (''Sales; '' @ k @ '' 5%'')
                = ''Sales; '' @ v @ '' 5%'') replacements_aggressive"
    by blast+
  from g5 have g5': "replace_all replacements_fixed (''Sales; '' @ ''&gt;'' @ '' 5%'')
                   = ''Sales; '' @ ''>'' @ '' 5%''"
    by (simp add: replacements_fixed_def)
  from g6 have g6': "replace_all replacements_aggressive (''Sales; '' @ ''&amp;'' @ '' 5%'')
       = ''Sales; '' @ ''&'' @ '' 5%''"
    by (simp add: replacements_aggressive_def)
  from h1 h2 h3 h4 h5 g1 g2 g3 g4 g5' g6' show ?thesis by blast
qed

theorem entity_replacement_counterexample:
  "replace_all replacements_fixed ''&#x2014;'' = ''-''
   \<and> replace_all replacements_aggressive ''&#x2014;'' = ''&#x2014;''
   \<and> replace_all replacements_fixed ''&#x2014;'' \<noteq> replace_all replacements_aggressive ''&#x2014;''
   \<and> replace_all replacements_fixed ''&#8216;'' = ''&#8216;''
   \<and> replace_all replacements_aggressive ''&#8216;'' = ''&#8216;''"
  by code_simp

text \<open>
  Claim C6 (as amended). For both policies, a NormalizedText produced by the extractor
  holds no line boundary, so a second application of the line filter and the
  whitespace-collapsing join treats it as one line: the result is the same string when
  that string passes the policy's rules for a line, and the empty string otherwise.
  From the second application on, the stage changes nothing any more. The
  counterexample gives, for each policy, a NormalizedText that the second
  application removes: one that became too short when its whitespace was collapsed,
  and one joined from two kept lines that fails the policy's ratio rule as a whole.
\<close>

theorem line_filter_second_pass:
  "filter_lines_fixed (filter_lines_fixed text)
     = (if keep_line_fixed (filter_lines_fixed text) then filter_lines_fixed text else [])
   \<and> filter_lines_aggressive (filter_lines_aggressive text)
     = (if keep_line_aggressive (filter_lines_aggressive text)
        then filter_lines_aggressive text else [])
   \<and> filter_lines_fixed (clean_html_text_fixed text)
     = (if keep_line_fixed (clean_html_text_fixed text) then clean_html_text_fixed text else [])
   \<and> filter_lines_aggressive (clean_html_text_aggressive text)
     = (if keep_line_aggressive (clean_html_text_aggressive text)
        then clean_html_text_aggressive text else [])
   \<and> filter_lines_fixed (filter_lines_fixed (filter_lines_fixed text))
     = filter_lines_fixed (filter_lines_fixed text)
   \<and> filter_lines_aggressive (filter_lines_aggressive (filter_lines_aggressive text))
     = filter_lines_aggressive (filter_lines_aggressive text)"
  unfolding filter_lines_fixed_def filter_lines_aggressive_def clean_html_text_fixed_def
    clean_html_text_aggressive_def
  by (intro conjI filter_lines_twice filter_lines_thrice)

theorem line_filter_second_pass_witness:
  "keep_line_fixed (filter_lines_fixed ''Total revenue was $265.6 billion for the year'')
   \<and> filter_lines_fixed (filter_lines_fixed ''Total revenue was $265.6 billion for the year'')
       = ''Total revenue was $265.6 billion for the year''
   \<and> filter_lines_fixed ''12/31 34.5% 99.1'' = []
   \<and> filter_lines_fixed (filter_lines_fixed ''12/31 34.5% 99.1'') = []"
proof -
  have k: "filter_lines_fixed ''Total revenue was $265.6 billion for the year''
             = ''Total revenue was $265.6 billion for the year''"
    by code_simp
  have k': "keep_line_fixed ''Total revenue was $265.6 billion for the year''" by code_simp
  have d: "filter_lines_fixed ''12/31 34.5% 99.1'' = []" by code_simp
  have d': "\<not> keep_line_fixed []" by (simp add: keep_line_fixed_def)
  note th1 = line_filter_second_pass [of "''Total revenue was $265.6 billion for the year''"]
  note th2 = line_filter_second_pass [of "''12/31 34.5% 99.1''"]
  from th1 have "filter_lines_fixed (filter_lines_fixed ''Total revenue was $265.6 billion for the year'')
       = ''Total revenue was $265.6 billion for the year''"
    by (simp only: k k' if_True)
  moreover from th2 have "filter_lines_fixed (filter_lines_fixed ''12/31 34.5% 99.1'') = []"
    by (simp only: d d' if_False)
  ultimately show ?thesis using k k' d by simp
qed

theorem line_filter_second_pass_counterexample:
  "clean_html_text_fixed (''Revenue'' @ replicate 20 (CHR '' '') @ ''up 5%'') = ''Revenue up 5%''
   \<and> filter_lines_fixed ''Revenue up 5%'' = []
   \<and> clean_html_text_aggressive (''Net sales'' @ replicate 40 (CHR '' '') @ ''rose'')
       = ''Net sales rose''
   \<and> filter_lines_aggressive ''Net sales rose'' = []
   \<and> clean_html_text_fixed ((''abcdefg'' @ replicate 16 (CHR ''$'')) @ [CHR 0x0A]
                             @ (''abcdefg'' @ replicate 16 (CHR ''$'')))
       = (''abcdefg'' @ replicate 16 (CHR ''$'')) @ '' '' @ (''abcdefg'' @ replicate 16 (CHR ''$''))
   \<and> filter_lines_fixed ((''abcdefg'' @ replicate 16 (CHR ''$'')) @ '' ''
                          @ (''abcdefg'' @ replicate 16 (CHR ''$''))) = []
   \<and> clean_html_text_aggressive ((''1. '' @ replicate 40 (CHR ''_'')) @ [CHR 0x0A]
                                  @ (''1. '' @ replicate 40 (CHR ''_'')))
       = (''1. '' @ replicate 40 (CHR ''_'')) @ '' '' @ (''1. '' @ replicate 40 (CHR ''_''))
   \<and> filter_lines_aggressive ((''1. '' @ replicate 40 (CHR ''_'')) @ '' ''
                               @ (''1. '' @ replicate 40 (CHR ''_''))) = []"
  by code_simp

end
